theory Spec2Isabelle
  imports Main
begin

section \<open>Upload queue: files, validation, enqueue and remove (static/admin.js, lines 217 to 897)\<close>

text \<open>
  A browser \<open>File\<close> is modelled by the two fields the code reads. Names are strings of
  8-bit characters; sizes are byte counts.
\<close>

record jsfile =
  fname :: string
  fsize :: nat

datatype status = Queued | Uploading | Done | Failed

text \<open>
  A parsed JSON value other than \<open>null\<close>, by the properties this code reads from it;
  each is \<open>None\<close> when reading it gives \<open>undefined\<close>. \<open>segments\<close> is present
  only when the value of that property is an array (anything else has no \<open>forEach\<close>
  to call); an element of the array is \<open>None\<close> when it is \<open>null\<close> and is
  otherwise named by its file name. A number, string or array as the whole body reads
  like an object without any of these properties.
\<close>

record payload =
  job_id :: "string option"
  segments :: "string option list option"
  detail :: "string option"

text \<open>A parsed JSON body.\<close>

datatype json = JNull | JValue payload

text \<open>
  A queue entry \<open>{ id, file, status }\<close>; \<open>result\<close> is the property that
  \<open>processQueue\<close> adds on success (absent before that, \<open>JNull\<close> when the body
  was \<open>null\<close>).
\<close>

record item =
  item_id :: string
  file_of :: jsfile
  status :: status
  result :: "json option"

datatype toast = ToastUnsupported string | ToastExceeds string | ToastMaxFiles nat

datatype message =
    MsgInvalidType | MsgTooLarge | MsgSignIn | MsgUsageLimit | MsgTooMany
  | MsgFailedToProcess | MsgDetail "string option" | MsgNetwork | MsgAllFailed

datatype view = SecUpload | SecProcessing | SecResults | SecError

datatype exn = TypeError

text \<open>
  What \<open>processQueue\<close> does that an observer can see, up to the end of its loop and
  in program order:
  a status written to the item at an index, a \<open>renderQueue()\<close> call, the
  \<open>apiFetch\<close> call for an item and the moment its promise settles, the button text
  \<open>Processing done / total\<close>, and the 500 ms timer.
\<close>

datatype pevent =
    SetStatus nat status
  | Render
  | FetchBegin nat
  | FetchEnd nat
  | ButtonText nat nat
  | Delay nat

text \<open>
  The page state of the upload script: its global variables, the parts of the DOM that
  the code writes and that the properties below read (visible section, error text, the
  payload whose file name, duration and count are written into the results section, the
  segment items appended to the segment list), the toasts shown so far, the number of
  \<open>Math.random()\<close> draws made, and the trace of \<open>processQueue\<close>.
  \<open>currentJobId\<close> is \<open>None\<close> when it holds \<open>null\<close> or \<open>undefined\<close>.
\<close>

record ui =
  fileQueue :: "item list"
  selectedFile :: "jsfile option"
  currentJobId :: "string option"
  shown :: view
  errorMessage :: "message option"
  displayed :: "payload option"
  segmentsList :: "string list"
  toasts :: "toast list"
  draws :: nat
  trace :: "pevent list"

definition init_ui :: ui where
  "init_ui = \<lparr> fileQueue = [], selectedFile = None, currentJobId = None,
      shown = SecUpload, errorMessage = None, displayed = None, segmentsList = [],
      toasts = [],
      draws = 0, trace = [] \<rparr>"

subsection \<open>The extension check\<close>

text \<open>\<open>String.prototype.split('.')\<close>: the segments between dots; never empty.\<close>

fun split_dot :: "string \<Rightarrow> string list" where
  "split_dot [] = [[]]"
| "split_dot (c # cs) =
     (if c = CHR ''.'' then [] # split_dot cs
      else (case split_dot cs of [] \<Rightarrow> [[c]] | seg # segs \<Rightarrow> (c # seg) # segs))"

text \<open>\<open>Array.prototype.pop()\<close> as used here: the last element, \<open>undefined\<close> on
  an empty array.\<close>

definition pop :: "'a list \<Rightarrow> 'a option" where
  "pop xs = (if xs = [] then None else Some (last xs))"

text \<open>\<open>toLowerCase()\<close> on 8-bit characters: \<open>A\<close>..\<open>Z\<close> and the upper-case
  letters of Latin-1 (192..222 except the multiplication sign 215) move up by 32.\<close>

definition toLowerCase_char :: "char \<Rightarrow> char" where
  "toLowerCase_char c =
     (let n = (of_char c :: nat)
      in if (65 \<le> n \<and> n \<le> 90) \<or> (192 \<le> n \<and> n \<le> 222 \<and> n \<noteq> 215)
         then char_of (n + 32) else c)"

definition toLowerCase :: "string \<Rightarrow> string" where
  "toLowerCase s = map toLowerCase_char s"

definition allowed :: "string list" where
  "allowed = [''.mp4'', ''.mov'', ''.avi'', ''.mkv'']"

text \<open>\<open>'.' + (file.name.split('.').pop() || '').toLowerCase()\<close>; the empty string is
  falsy, so \<open>|| ''\<close> maps both \<open>undefined\<close> and \<open>''\<close> to \<open>''\<close>.\<close>

definition ext :: "jsfile \<Rightarrow> string" where
  "ext f = CHR ''.'' #
     toLowerCase (case pop (split_dot (fname f)) of None \<Rightarrow> [] | Some seg \<Rightarrow> seg)"

definition maxSize :: nat where
  "maxSize = 500 * 1024 * 1024"

subsection \<open>addToQueue, removeFromQueue, handleFileSelect\<close>

text \<open>
  \<open>gen k\<close> is the value of \<open>Math.random().toString(36).slice(2)\<close> at the \<open>k\<close>-th
  draw; the code draws only on the accepting path.
\<close>

definition addToQueue :: "(nat \<Rightarrow> string) \<Rightarrow> jsfile \<Rightarrow> ui \<Rightarrow> ui" where
  "addToQueue gen f s =
     (if \<not> List.member allowed (ext f)
        then s\<lparr>toasts := toasts s @ [ToastUnsupported (fname f)]\<rparr>
      else if fsize f > 500 * 1024 * 1024
        then s\<lparr>toasts := toasts s @ [ToastExceeds (fname f)]\<rparr>
      else s\<lparr>fileQueue := fileQueue s @
                 [\<lparr>item_id = gen (draws s), file_of = f, status = Queued, result = None\<rparr>],
             draws := Suc (draws s)\<rparr>)"

text \<open>\<open>fileQueue = fileQueue.filter(f => f.id !== id)\<close>; the calls that follow only
  redraw and hide DOM elements.\<close>

definition removeFromQueue :: "string \<Rightarrow> ui \<Rightarrow> ui" where
  "removeFromQueue i s = s\<lparr>fileQueue := filter (\<lambda>f. item_id f \<noteq> i) (fileQueue s)\<rparr>"

definition showError :: "message \<Rightarrow> ui \<Rightarrow> ui" where
  "showError m s = s\<lparr>errorMessage := Some m, shown := SecError\<rparr>"

definition handleFileSelect :: "jsfile \<Rightarrow> ui \<Rightarrow> ui" where
  "handleFileSelect f s =
     (if \<not> List.member allowed (ext f) then showError MsgInvalidType s
      else if fsize f > maxSize then showError MsgTooLarge s
      else s\<lparr>selectedFile := Some f\<rparr>)"

subsection \<open>The file input's change handler\<close>

definition MAX_FILES_BY_PLAN :: "string \<Rightarrow> nat option" where
  "MAX_FILES_BY_PLAN p =
     (if p = ''free'' then Some 1 else if p = ''starter'' then Some 5
      else if p = ''pro'' then Some 10 else if p = ''enterprise'' then Some 20
      else None)"

text \<open>
  \<open>plan = getCachedUser()?.plan_tier?.toLowerCase() || 'free'\<close> and
  \<open>maxFiles = MAX_FILES_BY_PLAN[plan] || 1\<close>; the argument is the cached user's
  \<open>plan_tier\<close>, \<open>None\<close> when there is no cached user or no such field.
\<close>

definition maxFilesFor :: "string option \<Rightarrow> nat" where
  "maxFilesFor tier =
     (let lowered = (case tier of None \<Rightarrow> [] | Some t \<Rightarrow> toLowerCase t);
          plan = (if lowered = [] then ''free'' else lowered)
      in case MAX_FILES_BY_PLAN plan of None \<Rightarrow> 1 | Some n \<Rightarrow> if n = 0 then 1 else n)"

text \<open>\<open>xs.slice(0, e)\<close>: a negative end counts from the end of the array.\<close>

definition slice0 :: "'a list \<Rightarrow> int \<Rightarrow> 'a list" where
  "slice0 xs e = (if e < 0 then take (nat (int (length xs) + e)) xs else take (nat e) xs)"

text \<open>\<open>toAdd.forEach(f => addToQueue(f))\<close>\<close>

definition forEach_addToQueue :: "(nat \<Rightarrow> string) \<Rightarrow> jsfile list \<Rightarrow> ui \<Rightarrow> ui" where
  "forEach_addToQueue gen fs s = fold (addToQueue gen) fs s"

text \<open>
  The handler of the file input's \<open>change\<close> event, on the selected files. With no file
  selected, \<open>files[0]\<close> is \<open>undefined\<close> and \<open>handleFileSelect\<close> throws on
  \<open>file.name\<close>.
\<close>

definition fileInput_change ::
    "(nat \<Rightarrow> string) \<Rightarrow> string option \<Rightarrow> jsfile list \<Rightarrow> ui \<Rightarrow> exn + ui" where
  "fileInput_change gen tier files s =
     (let maxFiles = maxFilesFor tier
      in if length files > 1 \<and> maxFiles > 1 then
           (let toAdd = slice0 files (int maxFiles - int (length (fileQueue s)));
                s1 = (if length (fileQueue s) + length files > maxFiles
                      then s\<lparr>toasts := toasts s @ [ToastMaxFiles maxFiles]\<rparr> else s)
            in Inr (forEach_addToQueue gen toAdd s1))
         else (case files of [] \<Rightarrow> Inl TypeError
               | f # _ \<Rightarrow> Inr (handleFileSelect f s)))"

text \<open>
  The handler of the upload area's \<open>drop\<close> event, on the dropped files: the same
  selection without the toast, and guarded by \<open>else if (files[0])\<close>.
\<close>

definition uploadArea_drop ::
    "(nat \<Rightarrow> string) \<Rightarrow> string option \<Rightarrow> jsfile list \<Rightarrow> ui \<Rightarrow> ui" where
  "uploadArea_drop gen tier files s =
     (let maxFiles = maxFilesFor tier
      in if length files > 1 \<and> maxFiles > 1 then
           (let toAdd = slice0 files (int maxFiles - int (length (fileQueue s)))
            in forEach_addToQueue gen toAdd s)
         else (case files of [] \<Rightarrow> s | f # _ \<Rightarrow> handleFileSelect f s))"

text \<open>A sequence of change events; a handler that throws leaves the page state as it
  was.\<close>

definition change_event :: "(nat \<Rightarrow> string) \<Rightarrow> string option \<Rightarrow> jsfile list \<Rightarrow> ui \<Rightarrow> ui" where
  "change_event gen tier files s =
     (case fileInput_change gen tier files s of Inl _ \<Rightarrow> s | Inr s' \<Rightarrow> s')"

definition change_events ::
    "(nat \<Rightarrow> string) \<Rightarrow> string option \<Rightarrow> jsfile list list \<Rightarrow> ui \<Rightarrow> ui" where
  "change_events gen tier batches s = fold (change_event gen tier) batches s"


section \<open>Session gateway: apiFetch (static/auth.js, lines 261 to 376)\<close>

type_synonym token = string

text \<open>
  A \<open>Response\<close>: its status and what \<open>res.json()\<close> resolves to
  (\<open>None\<close> when the body does not parse and the promise rejects).
\<close>

record response =
  http_status :: nat
  body :: "json option"

text \<open>\<open>Response.ok\<close>: a status in 200..299.\<close>

definition ok :: "response \<Rightarrow> bool" where
  "ok r \<longleftrightarrow> 200 \<le> http_status r \<and> http_status r \<le> 299"

text \<open>How an awaited promise settles.\<close>

datatype 'a settled = Fulfilled 'a | Rejected

text \<open>
  \<open>apiFetch\<close> is an async function: it runs until an \<open>await\<close>, is suspended there,
  and is resumed when the awaited promise settles; between two suspension points its
  code runs without interruption. A call in progress is described by the \<open>await\<close> it is
  suspended at (with \<open>res\<close>, the first response, once it is known) and by its local
  \<open>headers['Authorization']\<close>.
\<close>

datatype pc =
    AwaitFetch
  | AwaitRefresh response
  | AwaitRefreshJson response
  | AwaitRetry
  | Returned response
  | Threw

record request =
  authorization :: "token option"
  pc :: pc

text \<open>The network requests issued, each with the id of the \<open>apiFetch\<close> call that
  issued it: a fetch of the caller's path with the \<open>Authorization\<close> token sent, or a
  POST to \<open>/auth/refresh\<close> with the refresh token sent.\<close>

datatype call = Fetch nat "token option" | Refresh nat "token option"

text \<open>
  The process-wide state of the fetch wrapper: the three \<open>localStorage\<close> entries, the
  module variables \<open>_refreshing\<close> and \<open>_refreshQueue\<close>, the address assigned to
  \<open>window.location.href\<close>, the calls of \<open>apiFetch\<close> made so far and the log of
  network requests. \<open>_refreshQueue\<close> is meant to hold the continuations of waiting
  callers (here: their ids).
\<close>

record session =
  vs_access_token :: "token option"
  vs_refresh_token :: "token option"
  vs_user :: "string option"
  refreshing :: bool
  refreshQueue :: "nat list"
  location :: "string option"
  requests :: "request list"
  calls :: "call list"

definition init_session :: "token option \<Rightarrow> token option \<Rightarrow> session" where
  "init_session a r = \<lparr> vs_access_token = a, vs_refresh_token = r, vs_user = None,
      refreshing = False, refreshQueue = [], location = None, requests = [], calls = [] \<rparr>"

text \<open>Truthiness of \<open>localStorage.getItem(..)\<close>: \<open>null\<close> and \<open>''\<close> are falsy.\<close>

definition truthy :: "string option \<Rightarrow> bool" where
  "truthy t = (case t of None \<Rightarrow> False | Some v \<Rightarrow> v \<noteq> [])"

definition setTokens :: "token \<Rightarrow> token \<Rightarrow> session \<Rightarrow> session" where
  "setTokens a r s = s\<lparr>vs_access_token := Some a, vs_refresh_token := Some r\<rparr>"

definition clearTokens :: "session \<Rightarrow> session" where
  "clearTokens s = s\<lparr>vs_access_token := None, vs_refresh_token := None, vs_user := None\<rparr>"

definition set_request :: "nat \<Rightarrow> request \<Rightarrow> session \<Rightarrow> session" where
  "set_request rid rq s = s\<lparr>requests := (requests s)[rid := rq]\<rparr>"

text \<open>
  Entering \<open>apiFetch\<close>: \<open>token = getToken()\<close>, the header is set when the token is
  truthy, and the first \<open>fetch\<close> is issued; the call is suspended at \<open>await fetch\<close>.
\<close>

definition apiFetch_enter :: "session \<Rightarrow> session" where
  "apiFetch_enter s =
     (let token = vs_access_token s;
          hdr = (if truthy token then token else None);
          rid = length (requests s)
      in s\<lparr>requests := requests s @ [\<lparr>authorization = hdr, pc = AwaitFetch\<rparr>],
            calls := calls s @ [Fetch rid hdr]\<rparr>)"

text \<open>The \<open>finally\<close> block of the refresh.\<close>

definition finally_refresh :: "session \<Rightarrow> session" where
  "finally_refresh s = s\<lparr>refreshing := False, refreshQueue := []\<rparr>"

text \<open>
  The code after the refresh block, \<open>// Retry with new token\<close>: with a truthy
  \<open>getToken()\<close> the header is replaced and the request is fetched again; otherwise
  \<open>res\<close> is returned.
\<close>

definition retry :: "nat \<Rightarrow> response \<Rightarrow> session \<Rightarrow> session" where
  "retry rid res s =
     (let newToken = vs_access_token s
      in if truthy newToken
         then (set_request rid \<lparr>authorization = newToken, pc = AwaitRetry\<rparr> s)
                \<lparr>calls := calls s @ [Fetch rid newToken]\<rparr>
         else set_request rid ((requests s ! rid)\<lparr>pc := Returned res\<rparr>) s)"

text \<open>
  \<open>_refreshQueue.forEach(fn => fn(data.access_token))\<close>. No statement of the program
  pushes onto \<open>_refreshQueue\<close>, so there is no function whose body could be run here;
  the queue is empty in every reachable state (lemma \<open>refreshQueue_empty\<close> below).
\<close>

definition forEach_refreshQueue :: "token \<Rightarrow> session \<Rightarrow> session" where
  "forEach_refreshQueue tok s = fold (\<lambda>fn s'. s') (refreshQueue s) s"

text \<open>What resumes a suspended call: the promise it awaits settles.\<close>

datatype event =
    Enter
  | FetchSettled nat "response settled"
  | RefreshSettled nat "nat settled"
  | JsonSettled nat "(token \<times> token) settled"

text \<open>
  Resuming call \<open>rid\<close> at \<open>await fetch(API + path, ..)\<close>: the first fetch, or the
  retry, whose response is returned whatever its status.
\<close>

definition on_fetch :: "nat \<Rightarrow> response settled \<Rightarrow> session \<Rightarrow> session" where
  "on_fetch rid r s =
     (let rq = requests s ! rid
      in case pc rq of
           AwaitFetch \<Rightarrow>
             (case r of
                Rejected \<Rightarrow> set_request rid (rq\<lparr>pc := Threw\<rparr>) s
              | Fulfilled res \<Rightarrow>
                  if http_status res = 401 \<and> truthy (vs_refresh_token s) then
                    (if \<not> refreshing s then
                       (set_request rid (rq\<lparr>pc := AwaitRefresh res\<rparr>) s)
                         \<lparr>refreshing := True,
                          calls := calls s @ [Refresh rid (vs_refresh_token s)]\<rparr>
                     else retry rid res s)
                  else set_request rid (rq\<lparr>pc := Returned res\<rparr>) s)
         | AwaitRetry \<Rightarrow>
             (case r of
                Rejected \<Rightarrow> set_request rid (rq\<lparr>pc := Threw\<rparr>) s
              | Fulfilled res \<Rightarrow> set_request rid (rq\<lparr>pc := Returned res\<rparr>) s)
         | _ \<Rightarrow> s)"

text \<open>Resuming the refreshing call at \<open>await fetch(API + '/auth/refresh', ..)\<close>; the
  argument is the status of \<open>rr\<close>.\<close>

definition on_refresh :: "nat \<Rightarrow> nat settled \<Rightarrow> session \<Rightarrow> session" where
  "on_refresh rid r s =
     (let rq = requests s ! rid
      in case pc rq of
           AwaitRefresh res \<Rightarrow>
             (case r of
                Rejected \<Rightarrow> set_request rid (rq\<lparr>pc := Threw\<rparr>) (finally_refresh s)
              | Fulfilled st \<Rightarrow>
                  if 200 \<le> st \<and> st \<le> 299
                  then set_request rid (rq\<lparr>pc := AwaitRefreshJson res\<rparr>) s
                  else retry rid res
                         (finally_refresh
                            ((clearTokens s)\<lparr>location := Some ''/static/auth.html''\<rparr>)))
         | _ \<Rightarrow> s)"

text \<open>Resuming the refreshing call at \<open>await rr.json()\<close>. A body that parses to
  \<open>null\<close> makes \<open>data.access_token\<close> throw, which ends the call as a rejection
  does; a property that is absent is stored by \<open>localStorage\<close> as the text
  \<open>undefined\<close>.\<close>

definition on_json :: "nat \<Rightarrow> (token \<times> token) settled \<Rightarrow> session \<Rightarrow> session" where
  "on_json rid r s =
     (let rq = requests s ! rid
      in case pc rq of
           AwaitRefreshJson res \<Rightarrow>
             (case r of
                Rejected \<Rightarrow> set_request rid (rq\<lparr>pc := Threw\<rparr>) (finally_refresh s)
              | Fulfilled (a, b) \<Rightarrow>
                  retry rid res
                    (finally_refresh (forEach_refreshQueue a (setTokens a b s))))
         | _ \<Rightarrow> s)"

text \<open>One event; an event for a call that does not exist changes nothing.\<close>

fun step :: "event \<Rightarrow> session \<Rightarrow> session" where
  "step Enter s = apiFetch_enter s"
| "step (FetchSettled rid r) s = (if rid < length (requests s) then on_fetch rid r s else s)"
| "step (RefreshSettled rid r) s = (if rid < length (requests s) then on_refresh rid r s else s)"
| "step (JsonSettled rid r) s = (if rid < length (requests s) then on_json rid r s else s)"

definition run :: "event list \<Rightarrow> session \<Rightarrow> session" where
  "run evs s = fold step evs s"

text \<open>How the promise returned by call \<open>rid\<close> has settled, if it has.\<close>

definition apiFetch_result :: "session \<Rightarrow> nat \<Rightarrow> response settled option" where
  "apiFetch_result s rid =
     (if rid < length (requests s) then
        (case pc (requests s ! rid) of
           Returned res \<Rightarrow> Some (Fulfilled res) | Threw \<Rightarrow> Some Rejected | _ \<Rightarrow> None)
      else None)"

text \<open>The number of refresh requests in the log that call \<open>rid\<close> issued.\<close>

definition refresh_calls :: "nat \<Rightarrow> call list \<Rightarrow> nat" where
  "refresh_calls rid cs =
     length (filter (\<lambda>c. case c of Refresh k _ \<Rightarrow> k = rid | Fetch _ _ \<Rightarrow> False) cs)"

section \<open>Upload pipeline: processQueue and splitVideo (static/admin.js, lines 466 to 856)\<close>

definition emit :: "pevent list \<Rightarrow> ui \<Rightarrow> ui" where
  "emit es s = s\<lparr>trace := trace s @ es\<rparr>"

text \<open>Writing fields of the item at an index of \<open>fileQueue\<close>.\<close>

definition update_item :: "nat \<Rightarrow> (item \<Rightarrow> item) \<Rightarrow> ui \<Rightarrow> ui" where
  "update_item i f s =
     (if i < length (fileQueue s) then s\<lparr>fileQueue := (fileQueue s)[i := f (fileQueue s ! i)]\<rparr>
      else s)"

text \<open>An uncaught exception comes with the page state it leaves behind.\<close>

type_synonym outcome = "(exn \<times> ui) + ui"

text \<open>
  \<open>data.segments.forEach((segment, index) => ..)\<close>: for each element
  \<open>createSegmentItem\<close> reads \<open>segment.duration\<close>, which throws on \<open>null\<close>, and
  the item is appended to the segment list.
\<close>

fun appendSegments :: "string option list \<Rightarrow> ui \<Rightarrow> outcome" where
  "appendSegments [] s = Inr s"
| "appendSegments (None # segs) s = Inl (TypeError, s)"
| "appendSegments (Some seg # segs) s =
     appendSegments segs (s\<lparr>segmentsList := segmentsList s @ [seg]\<rparr>)"

text \<open>
  \<open>displayResults(data)\<close>, for \<open>data\<close> other than \<open>null\<close>: the info fields are
  written and the segment list is cleared; \<open>data.segments.forEach\<close> throws when
  \<open>segments\<close> is not an array; after the last segment the results section is shown.
\<close>

definition displayResults :: "payload \<Rightarrow> ui \<Rightarrow> outcome" where
  "displayResults data s =
     (let s1 = s\<lparr>displayed := Some data, segmentsList := []\<rparr>
      in case segments data of
           None \<Rightarrow> Inl (TypeError, s1)
         | Some segs \<Rightarrow>
             (case appendSegments segs s1 of
                Inl ex \<Rightarrow> Inl ex
              | Inr s2 \<Rightarrow> Inr (s2\<lparr>shown := SecResults\<rparr>)))"

text \<open>
  The body of the loop for the item at index \<open>i\<close>; \<open>net i\<close> is how the promise of
  that item's \<open>apiFetch\<close> call settles, \<open>done\<close> the loop's counter. A rejected
  \<open>apiFetch\<close> and a rejected \<open>res.json()\<close> both land in \<open>catch (_)\<close>.
\<close>

definition upload_item :: "(nat \<Rightarrow> response settled) \<Rightarrow> nat \<Rightarrow> nat \<times> ui \<Rightarrow> nat \<times> ui" where
  "upload_item net i ds =
     (let done = fst ds; s = snd ds;
          s1 = emit [SetStatus i Uploading] (update_item i (\<lambda>it. it\<lparr>status := Uploading\<rparr>) s);
          s2 = emit [Render, FetchBegin i] s1;
          s3 = emit [FetchEnd i] s2;
          r = (case net i of
                 Fulfilled res \<Rightarrow> (if ok res then body res else None)
               | Rejected \<Rightarrow> None);
          done' = (case r of Some data \<Rightarrow> Suc done | None \<Rightarrow> done);
          s4 = (case r of
                  Some data \<Rightarrow>
                    emit [SetStatus i Done]
                      (update_item i (\<lambda>it. it\<lparr>status := Done, result := Some data\<rparr>) s3)
                | None \<Rightarrow>
                    emit [SetStatus i Failed]
                      (update_item i (\<lambda>it. it\<lparr>status := Failed\<rparr>) s3))
      in (done', emit [ButtonText done' (length (fileQueue s4)), Render, Delay 500] s4))"

text \<open>
  The code after the loop, once the button is enabled and relabelled (which the trace
  leaves out): \<open>fileQueue.find(f => f.status === 'done')\<close>, then
  \<open>currentJobId = firstSuccess.result.job_id\<close>, which throws when \<open>result\<close> is
  absent or \<open>null\<close>, then \<open>displayResults(firstSuccess.result)\<close>.
\<close>

definition aggregate :: "ui \<Rightarrow> outcome" where
  "aggregate s =
     (case find (\<lambda>f. status f = Done) (fileQueue s) of
        Some firstSuccess \<Rightarrow>
          (case result firstSuccess of
             None \<Rightarrow> Inl (TypeError, s)
           | Some JNull \<Rightarrow> Inl (TypeError, s)
           | Some (JValue data) \<Rightarrow> displayResults data (s\<lparr>currentJobId := job_id data\<rparr>))
      | None \<Rightarrow> Inr (showError MsgAllFailed s))"

text \<open>\<open>processQueue\<close>. What it throws is not caught by its caller, the click
  handler of the split button.\<close>

definition processQueue :: "(nat \<Rightarrow> response settled) \<Rightarrow> ui \<Rightarrow> outcome" where
  "processQueue net s =
     (if fileQueue s = [] then Inr s
      else aggregate (snd (fold (upload_item net) [0..<length (fileQueue s)]
                             (0, emit [ButtonText 0 (length (fileQueue s))] s))))"

text \<open>The page state an outcome leaves.\<close>

definition final_state :: "outcome \<Rightarrow> ui" where
  "final_state r = (case r of Inl ex \<Rightarrow> snd ex | Inr s \<Rightarrow> s)"


section \<open>Auxiliary definitions for the statements\<close>

text \<open>A file passes both checks of \<open>addToQueue\<close> (and of \<open>handleFileSelect\<close>).\<close>

definition accepts :: "jsfile \<Rightarrow> bool" where
  "accepts f \<longleftrightarrow> List.member allowed (ext f) \<and> \<not> fsize f > 500 * 1024 * 1024"

text \<open>The entries pushed for a list of accepted files, ids drawn from \<open>k\<close> on.\<close>

fun mk_items :: "(nat \<Rightarrow> string) \<Rightarrow> nat \<Rightarrow> jsfile list \<Rightarrow> item list" where
  "mk_items gen k [] = []"
| "mk_items gen k (f # fs) =
     \<lparr>item_id = gen k, file_of = f, status = Queued, result = None\<rparr> # mk_items gen (Suc k) fs"

text \<open>Concrete files and page states used in the examples below.\<close>

definition vid :: "string \<Rightarrow> jsfile" where
  "vid n = \<lparr>fname = n, fsize = 1000\<rparr>"

definition gen0 :: "nat \<Rightarrow> string" where
  "gen0 k = replicate (Suc k) CHR ''x''"

definition one_item :: "status \<Rightarrow> ui" where
  "one_item st = init_ui\<lparr>fileQueue :=
     [\<lparr>item_id = ''a'', file_of = vid ''v.mp4'', status = st, result = None\<rparr>]\<rparr>"

definition three_items :: ui where
  "three_items = init_ui\<lparr>fileQueue :=
     [\<lparr>item_id = ''a'', file_of = vid ''1.mp4'', status = Done,
        result = Some (JValue \<lparr>job_id = Some ''j1'', segments = Some [], detail = None\<rparr>)\<rparr>,
      \<lparr>item_id = ''b'', file_of = vid ''2.mov'', status = Uploading, result = None\<rparr>,
      \<lparr>item_id = ''c'', file_of = vid ''3.mkv'', status = Queued, result = None\<rparr>]\<rparr>"

definition done_item :: ui where
  "done_item = init_ui\<lparr>fileQueue :=
     [\<lparr>item_id = ''a'', file_of = vid ''v.mp4'', status = Done,
        result = Some (JValue \<lparr>job_id = Some ''j1'', segments = Some [], detail = None\<rparr>)\<rparr>]\<rparr>"

text \<open>A file whose name is \<open>mp4\<close>, without a dot.\<close>

definition dotless :: jsfile where
  "dotless = \<lparr>fname = ''mp4'', fsize = 1000\<rparr>"

definition exactly_500MiB :: jsfile where
  "exactly_500MiB = \<lparr>fname = ''a.mp4'', fsize = 524288000\<rparr>"

definition over_500MiB :: jsfile where
  "over_500MiB = \<lparr>fname = ''a.mp4'', fsize = 524288001\<rparr>"

definition six_videos :: "jsfile list" where
  "six_videos = [vid ''a.mp4'', vid ''b.mov'', vid ''c.avi'', vid ''d.mkv'', vid ''e.MP4'', vid ''f.mp4'']"

text \<open>The payload an item ends up with: \<open>res.json()\<close> of an \<open>ok\<close> response; none when
  \<open>apiFetch\<close> rejects, the response is not \<open>ok\<close>, or its body does not parse.\<close>

definition payload_of :: "response settled \<Rightarrow> json option" where
  "payload_of r = (case r of Fulfilled res \<Rightarrow> (if ok res then body res else None) | Rejected \<Rightarrow> None)"

text \<open>The item after its turn in the loop.\<close>

definition settle_item :: "response settled \<Rightarrow> item \<Rightarrow> item" where
  "settle_item r it =
     (case payload_of r of Some data \<Rightarrow> it\<lparr>status := Done, result := Some data\<rparr>
      | None \<Rightarrow> it\<lparr>status := Failed\<rparr>)"

text \<open>The value of the counter \<open>done\<close> after the first \<open>k\<close> items.\<close>

definition successes :: "(nat \<Rightarrow> response settled) \<Rightarrow> nat \<Rightarrow> nat" where
  "successes net k = length (filter (\<lambda>i. payload_of (net i) \<noteq> None) [0..<k])"

text \<open>What the loop body does for item \<open>i\<close> of \<open>n\<close>, in program order.\<close>

definition item_block :: "(nat \<Rightarrow> response settled) \<Rightarrow> nat \<Rightarrow> nat \<Rightarrow> pevent list" where
  "item_block net n i =
     [SetStatus i Uploading, Render, FetchBegin i, FetchEnd i,
      SetStatus i (case payload_of (net i) of Some data \<Rightarrow> Done | None \<Rightarrow> Failed),
      ButtonText (successes net (Suc i)) n, Render, Delay 500]"

text \<open>The queue when the first \<open>k\<close> items have had their turn.\<close>

definition settled_prefix :: "(nat \<Rightarrow> response settled) \<Rightarrow> nat \<Rightarrow> item list \<Rightarrow> item list" where
  "settled_prefix net k q = map (\<lambda>i. settle_item (net i) (q ! i)) [0..<k] @ drop k q"

text \<open>Concrete payloads, transports and queues used in the examples below.\<close>

definition job :: "nat \<Rightarrow> payload" where
  "job i = \<lparr>job_id = Some (gen0 i), segments = Some [Some ''seg_000.mp4'', Some ''seg_001.mp4''],
     detail = None\<rparr>"

text \<open>A 200 body with a job id and no \<open>segments\<close>, and the responses carrying it and
  carrying \<open>null\<close>.\<close>

definition bare_job :: payload where
  "bare_job = \<lparr>job_id = Some ''x'', segments = None, detail = None\<rparr>"

definition r200_bare :: response where
  "r200_bare = \<lparr>http_status = 200, body = Some (JValue bare_job)\<rparr>"


text \<open>A payload that \<open>displayResults\<close> draws without throwing.\<close>

definition well_formed :: "json \<Rightarrow> bool" where
  "well_formed j =
     (case j of
        JNull \<Rightarrow> False
      | JValue data \<Rightarrow>
          (case segments data of None \<Rightarrow> False | Some segs \<Rightarrow> list_all (\<lambda>x. x \<noteq> None) segs))"

definition net3 :: "nat \<Rightarrow> response settled" where
  "net3 i = (if i = 1 then Rejected
             else Fulfilled \<lparr>http_status = 200, body = Some (JValue (job i))\<rparr>)"

definition three_queued :: ui where
  "three_queued = init_ui\<lparr>fileQueue :=
     [\<lparr>item_id = ''a'', file_of = vid ''1.mp4'', status = Queued, result = None\<rparr>,
      \<lparr>item_id = ''b'', file_of = vid ''2.mov'', status = Queued, result = None\<rparr>,
      \<lparr>item_id = ''c'', file_of = vid ''3.mkv'', status = Queued, result = None\<rparr>]\<rparr>"

text \<open>The page state when the loop has ended.\<close>

definition after_loop :: "(nat \<Rightarrow> response settled) \<Rightarrow> ui \<Rightarrow> ui" where
  "after_loop net s =
     s\<lparr>fileQueue := map (\<lambda>i. settle_item (net i) (fileQueue s ! i)) [0..<length (fileQueue s)],
       trace := trace s @ ButtonText 0 (length (fileQueue s)) #
          concat (map (item_block net (length (fileQueue s))) [0..<length (fileQueue s)])\<rparr>"

definition three_done :: ui where
  "three_done = init_ui\<lparr>
     fileQueue :=
      [\<lparr>item_id = ''a'', file_of = vid ''1.mp4'', status = Done, result = Some (JValue (job 0))\<rparr>,
       \<lparr>item_id = ''b'', file_of = vid ''2.mov'', status = Failed, result = None\<rparr>,
       \<lparr>item_id = ''c'', file_of = vid ''3.mkv'', status = Done, result = Some (JValue (job 2))\<rparr>],
     currentJobId := job_id (job 0),
     shown := SecResults,
     displayed := Some (job 0),
     segmentsList := [''seg_000.mp4'', ''seg_001.mp4''],
     trace :=
      [ButtonText 0 3,
       SetStatus 0 Uploading, Render, FetchBegin 0, FetchEnd 0, SetStatus 0 Done,
         ButtonText 1 3, Render, Delay 500,
       SetStatus 1 Uploading, Render, FetchBegin 1, FetchEnd 1, SetStatus 1 Failed,
         ButtonText 1 3, Render, Delay 500,
       SetStatus 2 Uploading, Render, FetchBegin 2, FetchEnd 2, SetStatus 2 Done,
         ButtonText 2 3, Render, Delay 500]\<rparr>"

definition all_rejected :: "nat \<Rightarrow> response settled" where
  "all_rejected i = Rejected"

definition all_status :: "nat \<Rightarrow> nat \<Rightarrow> response settled" where
  "all_status st i = Fulfilled \<lparr>http_status = st, body = None\<rparr>"

text \<open>Concrete responses, sessions and schedules used in the examples below.\<close>

definition r401 :: response where
  "r401 = \<lparr>http_status = 401, body = None\<rparr>"

definition r200 :: response where
  "r200 = \<lparr>http_status = 200, body = Some (JValue (job 0))\<rparr>"

definition expired :: session where
  "expired = init_session (Some ''old'') (Some ''r1'')"

definition two_faults :: "event list" where
  "two_faults = [Enter, Enter, FetchSettled 0 (Fulfilled r401), FetchSettled 1 (Fulfilled r401)]"

definition refresh_succeeds :: "event list" where
  "refresh_succeeds = [RefreshSettled 0 (Fulfilled 200), JsonSettled 0 (Fulfilled (''new'', ''r2''))]"

definition replays_settle :: "event list" where
  "replays_settle = [FetchSettled 1 (Fulfilled r401), FetchSettled 0 (Fulfilled r200)]"

text \<open>Call \<open>k\<close> has issued at most one refresh request, and none while it still awaits
  its first response or does not exist yet.\<close>

definition refreshed_once :: "nat \<Rightarrow> session \<Rightarrow> bool" where
  "refreshed_once k s \<longleftrightarrow>
     refresh_calls k (calls s) \<le> 1
     \<and> (k < length (requests s) \<longrightarrow> pc (requests s ! k) = AwaitFetch \<longrightarrow>
          refresh_calls k (calls s) = 0)
     \<and> (length (requests s) \<le> k \<longrightarrow> refresh_calls k (calls s) = 0)"

definition one_fault_refreshed :: "event list" where
  "one_fault_refreshed = [Enter, FetchSettled 0 (Fulfilled r401),
     RefreshSettled 0 (Fulfilled 200), JsonSettled 0 (Fulfilled (''new'', ''r2''))]"

text \<open>A call is inside the refresh block: suspended at the refresh request or at its
  \<open>json()\<close>.\<close>

definition in_refresh :: "request \<Rightarrow> bool" where
  "in_refresh rq = (case pc rq of AwaitRefresh res \<Rightarrow> True | AwaitRefreshJson res \<Rightarrow> True | _ \<Rightarrow> False)"

text \<open>\<open>_refreshing\<close> is set exactly while one call is inside the refresh block, and no
  other call is; \<open>_refreshQueue\<close> is empty.\<close>

definition single_flight :: "session \<Rightarrow> bool" where
  "single_flight s \<longleftrightarrow>
     refreshQueue s = []
     \<and> length (filter in_refresh (requests s)) = (if refreshing s then 1 else 0)"





definition all_settle :: "response settled \<Rightarrow> nat \<Rightarrow> response settled" where
  "all_settle r i = r"


text \<open>The page states that the examples of the pipeline end in.\<close>

definition one_trace :: "status \<Rightarrow> nat \<Rightarrow> pevent list" where
  "one_trace st d = [ButtonText 0 1, SetStatus 0 Uploading, Render, FetchBegin 0, FetchEnd 0,
     SetStatus 0 st, ButtonText d 1, Render, Delay 500]"

definition bare_thrown :: ui where
  "bare_thrown = init_ui\<lparr>
     fileQueue := [\<lparr>item_id = ''a'', file_of = vid ''v.mp4'', status = Done,
                    result = Some (JValue bare_job)\<rparr>],
     currentJobId := Some ''x'', displayed := Some bare_job, trace := one_trace Done 1\<rparr>"


definition one_failed :: ui where
  "one_failed = init_ui\<lparr>
     fileQueue := [\<lparr>item_id = ''a'', file_of = vid ''v.mp4'', status = Failed, result = None\<rparr>],
     shown := SecError, errorMessage := Some MsgAllFailed, trace := one_trace Failed 0\<rparr>"

section \<open>Properties of the upload queue\<close>

lemma length_mk_items [simp]: "length (mk_items gen k fs) = length fs"
  by (induction fs arbitrary: k) simp_all

lemma file_of_mk_items [simp]: "map file_of (mk_items gen k fs) = fs"
  by (induction fs arbitrary: k) simp_all

lemma status_mk_items: "it \<in> set (mk_items gen k fs) \<Longrightarrow> status it = Queued"
  by (induction fs arbitrary: k) auto

lemma addToQueue_accepts:
  "accepts f \<Longrightarrow> addToQueue gen f s =
     s\<lparr>fileQueue := fileQueue s @ mk_items gen (draws s) [f], draws := Suc (draws s)\<rparr>"
  by (simp add: addToQueue_def accepts_def)

lemma addToQueue_rejects:
  "\<not> accepts f \<Longrightarrow> fileQueue (addToQueue gen f s) = fileQueue s
     \<and> draws (addToQueue gen f s) = draws s"
  by (simp add: addToQueue_def accepts_def)

lemma mk_items_append:
  "mk_items gen k (xs @ ys) = mk_items gen k xs @ mk_items gen (k + length xs) ys"
  by (induction xs arbitrary: k) simp_all

lemma forEach_queue:
  "fileQueue (forEach_addToQueue gen fs s)
     = fileQueue s @ mk_items gen (draws s) (filter accepts fs)
   \<and> draws (forEach_addToQueue gen fs s) = draws s + length (filter accepts fs)"
proof (induction fs arbitrary: s)
  case Nil
  show ?case by (simp add: forEach_addToQueue_def)
next
  case (Cons f fs)
  have step: "forEach_addToQueue gen (f # fs) s = forEach_addToQueue gen fs (addToQueue gen f s)"
    by (simp add: forEach_addToQueue_def)
  show ?case
  proof (cases "accepts f")
    case True
    then show ?thesis
      using Cons.IH [of "addToQueue gen f s"] by (simp add: step addToQueue_accepts)
  next
    case False
    then show ?thesis
      using Cons.IH [of "addToQueue gen f s"] addToQueue_rejects [of f gen s]
      by (simp add: step)
  qed
qed

lemma handleFileSelect_queue [simp]: "fileQueue (handleFileSelect f s) = fileQueue s"
  by (simp add: handleFileSelect_def showError_def)

lemma slice0_length: "0 \<le> e \<Longrightarrow> length (slice0 xs e) \<le> nat e"
  by (simp add: slice0_def)

lemma change_event_queue_multi:
  assumes "1 < length files" "1 < maxFilesFor tier"
  shows "fileQueue (change_event gen tier files s) = fileQueue s @
     mk_items gen (draws s)
       (filter accepts (slice0 files (int (maxFilesFor tier) - int (length (fileQueue s)))))"
  using assms forEach_queue [of gen _ "s\<lparr>toasts := toasts s @ [ToastMaxFiles (maxFilesFor tier)]\<rparr>"]
    forEach_queue [of gen _ s]
  by (simp add: change_event_def fileInput_change_def Let_def)

lemma change_event_queue_single:
  assumes "\<not> (1 < length files \<and> 1 < maxFilesFor tier)"
  shows "fileQueue (change_event gen tier files s) = fileQueue s"
  using assms
  by (auto simp: change_event_def fileInput_change_def Let_def split: list.splits)

lemma change_event_within:
  assumes "length (fileQueue s) \<le> maxFilesFor tier"
  shows "length (fileQueue (change_event gen tier files s)) \<le> maxFilesFor tier"
proof (cases "1 < length files \<and> 1 < maxFilesFor tier")
  case True
  let ?e = "int (maxFilesFor tier) - int (length (fileQueue s))"
  have "0 \<le> ?e" using assms by simp
  then have "length (slice0 files ?e) \<le> nat ?e" by (rule slice0_length)
  moreover have "length (filter accepts (slice0 files ?e)) \<le> length (slice0 files ?e)"
    by (rule length_filter_le)
  ultimately have "length (filter accepts (slice0 files ?e)) \<le> maxFilesFor tier - length (fileQueue s)"
    by linarith
  with True assms show ?thesis
    by (simp add: change_event_queue_multi)
next
  case False
  with assms show ?thesis by (simp add: change_event_queue_single)
qed

lemma change_events_within:
  "length (fileQueue s) \<le> maxFilesFor tier \<Longrightarrow>
     length (fileQueue (change_events gen tier batches s)) \<le> maxFilesFor tier"
proof (induction batches arbitrary: s)
  case Nil
  then show ?case by (simp add: change_events_def)
next
  case (Cons b bs)
  have "change_events gen tier (b # bs) s = change_events gen tier bs (change_event gen tier b s)"
    by (simp add: change_events_def)
  with Cons.IH [OF change_event_within [OF Cons.prems]] show ?case by simp
qed

lemma change_event_full:
  assumes "length (fileQueue s) = maxFilesFor tier"
  shows "fileQueue (change_event gen tier files s) = fileQueue s"
proof (cases "1 < length files \<and> 1 < maxFilesFor tier")
  case True
  with assms show ?thesis by (simp add: change_event_queue_multi slice0_def)
next
  case False
  then show ?thesis by (simp add: change_event_queue_single)
qed

lemma filter_accepts_all: "\<forall>f\<in>set fs. accepts f \<Longrightarrow> filter accepts fs = fs"
  by (induction fs) simp_all

lemma change_event_exact:
  assumes "fileQueue s = []" "1 < maxFilesFor tier"
    "length files = Suc (maxFilesFor tier)" "\<forall>f\<in>set files. accepts f"
  shows "fileQueue (change_event gen tier files s)
     = mk_items gen (draws s) (take (maxFilesFor tier) files)"
proof -
  have "\<forall>f\<in>set (take (maxFilesFor tier) files). accepts f"
    using assms(4) by (meson in_set_takeD)
  then have "filter accepts (take (maxFilesFor tier) files) = take (maxFilesFor tier) files"
    by (rule filter_accepts_all)
  with assms show ?thesis
    by (simp add: change_event_queue_multi slice0_def)
qed

lemma ext_fname_vid: "ext f = ext (vid (fname f))"
  by (simp add: ext_def vid_def)

lemma ext_vid:
  "ext (vid ''mp4'') = ''.mp4''" "ext (vid ''a.mp4'') = ''.mp4''" "ext (vid ''b.mov'') = ''.mov''" "ext (vid ''c.avi'') = ''.avi''"
  "ext (vid ''d.mkv'') = ''.mkv''" "ext (vid ''e.MP4'') = ''.mp4''" "ext (vid ''f.mp4'') = ''.mp4''"
  "ext (vid ''notes.txt'') = ''.txt''"
  by code_simp+

lemma accepts_vid:
  "accepts (vid ''a.mp4'')" "accepts (vid ''b.mov'')" "accepts (vid ''c.avi'')"
  "accepts (vid ''d.mkv'')" "accepts (vid ''e.MP4'')" "accepts (vid ''f.mp4'')"
  "\<not> accepts (vid ''notes.txt'')"
  by (simp_all add: accepts_def ext_vid allowed_def) (simp_all add: vid_def)

lemma maxFilesFor_values:
  "maxFilesFor None = 1" "maxFilesFor (Some ''free'') = 1" "maxFilesFor (Some ''starter'') = 5"
  "maxFilesFor (Some ''pro'') = 10" "maxFilesFor (Some ''enterprise'') = 20"
  by code_simp+

lemma set_allowed: "set allowed = {''.mp4'', ''.mov'', ''.avi'', ''.mkv''}"
  by (simp add: allowed_def)

subsection \<open>Removing by id\<close>

text \<open>
  Claim C3, as the code has it. \<open>removeFromQueue\<close> filters the queue by id and never
  reads an item's status. When the queue holds an item \<open>x\<close> (of any status: queued,
  uploading, done or failed) whose id occurs nowhere else in the queue, removing that id
  leaves exactly the other items, in their order, so the queue is shorter by one. Removing
  an id that no item carries returns the page state unchanged, whatever the queue.
  Nothing is raised in either case: the function is total.
\<close>

theorem removeFromQueue_by_id:
  "(fileQueue s = xs @ x # ys \<and> item_id x \<notin> item_id ` set (xs @ ys) \<longrightarrow>
      fileQueue (removeFromQueue (item_id x) s) = xs @ ys
      \<and> Suc (length (fileQueue (removeFromQueue (item_id x) s))) = length (fileQueue s))
   \<and> (j \<notin> item_id ` set (fileQueue s) \<longrightarrow> removeFromQueue j s = s)"
proof -
  have keep: "filter (\<lambda>f. item_id f \<noteq> item_id x) zs = zs"
    if "item_id x \<notin> item_id ` set zs" for zs
    using that by (induction zs) auto
  have rest: "fileQueue (removeFromQueue (item_id x) s) = xs @ ys
      \<and> Suc (length (fileQueue (removeFromQueue (item_id x) s))) = length (fileQueue s)"
    if "fileQueue s = xs @ x # ys" "item_id x \<notin> item_id ` set (xs @ ys)"
    using that keep [of xs] keep [of ys] by (simp add: removeFromQueue_def image_Un)
  have absent: "removeFromQueue j s = s" if "j \<notin> item_id ` set (fileQueue s)"
  proof -
    have "filter (\<lambda>f. item_id f \<noteq> j) (fileQueue s) = fileQueue s"
      using that by (induction "fileQueue s") (auto simp: filter_id_conv)
    then show ?thesis by (simp add: removeFromQueue_def)
  qed
  show ?thesis using rest absent by blast
qed

text \<open>
  The theorem at a queue of three items with statuses done, uploading, queued: removing
  the uploading item \<open>b\<close> leaves the other two in order, and removing the unknown id
  \<open>z\<close> changes nothing, there and on the empty queue.
\<close>

theorem removeFromQueue_by_id_witness:
  "fileQueue (removeFromQueue ''b'' three_items) =
     [\<lparr>item_id = ''a'', file_of = vid ''1.mp4'', status = Done,
        result = Some (JValue \<lparr>job_id = Some ''j1'', segments = Some [], detail = None\<rparr>)\<rparr>,
      \<lparr>item_id = ''c'', file_of = vid ''3.mkv'', status = Queued, result = None\<rparr>]
   \<and> length (fileQueue three_items) = 3
   \<and> removeFromQueue ''z'' three_items = three_items
   \<and> removeFromQueue ''z'' init_ui = init_ui"
  using removeFromQueue_by_id [of init_ui "[]"
      "\<lparr>item_id = ''b'', file_of = vid ''2.mov'', status = Uploading, result = None\<rparr>"
      "[]" "''z''"]
    removeFromQueue_by_id [of three_items
      "[\<lparr>item_id = ''a'', file_of = vid ''1.mp4'', status = Done,
          result = Some (JValue \<lparr>job_id = Some ''j1'', segments = Some [], detail = None\<rparr>)\<rparr>]"
      "\<lparr>item_id = ''b'', file_of = vid ''2.mov'', status = Uploading, result = None\<rparr>"
      "[\<lparr>item_id = ''c'', file_of = vid ''3.mkv'', status = Queued, result = None\<rparr>]" "''z''"]
  by (simp add: three_items_def init_ui_def)

text \<open>
  Claim C3 as the specification words it fails: removing the id of an item that is
  uploading, done or failed is not a no-op. On a queue holding one such item the queue
  is empty afterwards.
\<close>

theorem removeFromQueue_ignores_status:
  "fileQueue (one_item Uploading) \<noteq> []
   \<and> fileQueue (removeFromQueue ''a'' (one_item Uploading)) = []
   \<and> fileQueue done_item \<noteq> []
   \<and> fileQueue (removeFromQueue ''a'' done_item) = []
   \<and> fileQueue (one_item Failed) \<noteq> []
   \<and> fileQueue (removeFromQueue ''a'' (one_item Failed)) = []"
  by (simp add: removeFromQueue_def one_item_def done_item_def init_ui_def)

subsection \<open>Rejection by extension\<close>

lemma split_dot_length:
  "length (split_dot cs) = Suc (length (filter (\<lambda>c. c = CHR ''.'') cs))"
  by (induction cs) (auto split: list.splits)

lemma split_dot_not_Nil [simp]: "split_dot cs \<noteq> []"
  using split_dot_length [of cs] by auto

lemma split_dot_no_dot: "CHR ''.'' \<notin> set e \<Longrightarrow> split_dot e = [e]"
  by (induction e) (auto split: list.splits)

lemma last_split_dot: "last (split_dot (base @ CHR ''.'' # e)) = last (split_dot e)"
proof (induction base)
  case Nil
  show ?case by simp
next
  case (Cons c base)
  let ?rest = "split_dot (base @ CHR ''.'' # e)"
  have "2 \<le> length ?rest" by (simp add: split_dot_length)
  then obtain seg seg' segs where rest: "?rest = seg # seg' # segs"
    by (cases ?rest; cases "tl ?rest") auto
  show ?case using Cons.IH by (simp add: rest)
qed

text \<open>
  For a name with a dot, the check reads the text after the last dot, in lower case:
  when that is none of \<open>mp4\<close>, \<open>mov\<close>, \<open>avi\<close>, \<open>mkv\<close>, the file is rejected
  by \<open>addToQueue\<close> and the queue is left as it was, and a batch handed to
  \<open>forEach\<close> ends up exactly as if that file had not been in it.
\<close>

lemma ext_dotted:
  "CHR ''.'' \<notin> set e \<Longrightarrow> ext \<lparr>fname = base @ CHR ''.'' # e, fsize = n\<rparr> = CHR ''.'' # toLowerCase e"
  by (simp add: ext_def pop_def last_split_dot split_dot_no_dot)

lemma dotted_extension_rejected:
  assumes "CHR ''.'' \<notin> set e" and "toLowerCase e \<notin> {''mp4'', ''mov'', ''avi'', ''mkv''}"
    and "f = \<lparr>fname = base @ CHR ''.'' # e, fsize = n\<rparr>"
  shows "fileQueue (addToQueue gen f s) = fileQueue s
       \<and> fileQueue (forEach_addToQueue gen (xs @ f # ys) s)
           = fileQueue (forEach_addToQueue gen (xs @ ys) s)"
proof -
  have "ext f \<notin> {''.mp4'', ''.mov'', ''.avi'', ''.mkv''}"
    using assms by (simp add: ext_dotted)
  then have no: "\<not> accepts f" by (simp add: accepts_def set_allowed)
  then have "filter accepts (xs @ f # ys) = filter accepts (xs @ ys)" by simp
  then show ?thesis using no by (simp add: forEach_queue addToQueue_rejects)
qed

text \<open>
  Claim C5, at a file whose name is \<open>mp4\<close> with no dot in it. The name has no
  extension, so the claim has the file rejected. The code splits the name at dots and
  takes the last piece, which for a name without a dot is the whole name; it thus reads
  the extension \<open>.mp4\<close>, pushes the file onto the queue, and
  \<open>handleFileSelect\<close> stores it as the selected file.
\<close>

theorem dotless_is_queued:
  "CHR ''.'' \<notin> set (fname dotless)
   \<and> split_dot (fname dotless) = [''mp4'']
   \<and> ext dotless = ''.mp4''
   \<and> fileQueue (addToQueue gen0 dotless init_ui) =
        [\<lparr>item_id = gen0 0, file_of = dotless, status = Queued, result = None\<rparr>]
   \<and> selectedFile (handleFileSelect dotless init_ui) = Some dotless"
proof -
  have e: "ext dotless = ''.mp4''" using ext_fname_vid [of dotless] by (simp add: dotless_def ext_vid)
  have "accepts dotless" by (simp add: accepts_def e allowed_def) (simp add: dotless_def)
  then show ?thesis
    using e
    by (simp add: addToQueue_accepts handleFileSelect_def accepts_def maxSize_def init_ui_def)
      (simp add: dotless_def)
qed

lemma change_event_files:
  assumes "1 < length files" "1 < maxFilesFor tier"
  shows "file_of ` set (fileQueue (change_event gen tier files s)) = file_of ` set (fileQueue s) \<union>
     set (filter accepts (slice0 files (int (maxFilesFor tier) - int (length (fileQueue s)))))"
proof -
  let ?new = "filter accepts (slice0 files (int (maxFilesFor tier) - int (length (fileQueue s))))"
  have "map file_of (fileQueue (change_event gen tier files s)) = map file_of (fileQueue s) @ ?new"
    using assms by (simp add: change_event_queue_multi)
  then have "set (map file_of (fileQueue (change_event gen tier files s)))
      = set (map file_of (fileQueue s) @ ?new)" by simp
  then show ?thesis by (simp only: set_map set_append)
qed

subsection \<open>The size limit\<close>

text \<open>
  Claim C10. For a file with an allowed extension, the size check is the strict
  comparison \<open>file.size > 500 * 1024 * 1024\<close> in both entry points. A file of at most
  that many bytes, so also one of exactly that many, is pushed by \<open>addToQueue\<close> as a
  queued item and is stored by \<open>handleFileSelect\<close> as the selected file; a strictly
  larger file leaves the queue unchanged and makes \<open>handleFileSelect\<close> show the size
  error. Through the change handler in multi-file mode, such a file at a batch position
  that the remaining capacity still covers is in the queue afterwards.
\<close>

theorem size_limit_boundary:
  assumes "ext f \<in> {''.mp4'', ''.mov'', ''.avi'', ''.mkv''}"
  shows "(fsize f \<le> 500 * 1024 * 1024 \<longrightarrow>
            fileQueue (addToQueue gen f s) = fileQueue s @
              [\<lparr>item_id = gen (draws s), file_of = f, status = Queued, result = None\<rparr>]
            \<and> handleFileSelect f s = s\<lparr>selectedFile := Some f\<rparr>)
       \<and> (500 * 1024 * 1024 < fsize f \<longrightarrow>
            fileQueue (addToQueue gen f s) = fileQueue s
            \<and> handleFileSelect f s = showError MsgTooLarge s)
       \<and> (fsize f \<le> 500 * 1024 * 1024 \<and> 1 < length files \<and> 1 < maxFilesFor tier
            \<and> k < length files \<and> files ! k = f
            \<and> length (fileQueue s) + k < maxFilesFor tier \<longrightarrow>
            f \<in> file_of ` set (fileQueue (change_event gen tier files s)))"
proof -
  have ok: "List.member allowed (ext f)" using assms by (simp add: set_allowed)
  have small: "fileQueue (addToQueue gen f s) = fileQueue s @
              [\<lparr>item_id = gen (draws s), file_of = f, status = Queued, result = None\<rparr>]
            \<and> handleFileSelect f s = s\<lparr>selectedFile := Some f\<rparr>"
    if "fsize f \<le> 500 * 1024 * 1024"
    using that ok by (simp add: addToQueue_def handleFileSelect_def maxSize_def)
  have large: "fileQueue (addToQueue gen f s) = fileQueue s
            \<and> handleFileSelect f s = showError MsgTooLarge s"
    if "500 * 1024 * 1024 < fsize f"
    using that ok by (simp add: addToQueue_def handleFileSelect_def maxSize_def)
  have batch: "f \<in> file_of ` set (fileQueue (change_event gen tier files s))"
    if le: "fsize f \<le> 500 * 1024 * 1024" and m: "1 < length files" "1 < maxFilesFor tier"
      and k: "k < length files" "files ! k = f" "length (fileQueue s) + k < maxFilesFor tier"
  proof -
    let ?e = "int (maxFilesFor tier) - int (length (fileQueue s))"
    have acc: "accepts f" using ok le by (simp add: accepts_def)
    have "k < nat ?e" using k(3) by linarith
    moreover have "0 \<le> ?e" using k(3) by linarith
    ultimately have "f \<in> set (slice0 files ?e)"
      using k(1,2) by (auto simp: slice0_def in_set_conv_nth)
    with acc have "f \<in> set (filter accepts (slice0 files ?e))" by simp
    then show ?thesis using m by (simp add: change_event_files)
  qed
  show ?thesis using small large batch by blast
qed

text \<open>
  The theorem at a file of exactly 524288000 bytes (accepted by both entry points, and
  through the change handler on the starter plan) and at one of 524288001 bytes
  (rejected by both).
\<close>

theorem size_limit_boundary_witness:
  "fsize exactly_500MiB = 500 * 1024 * 1024
   \<and> map file_of (fileQueue (addToQueue gen0 exactly_500MiB init_ui)) = [exactly_500MiB]
   \<and> selectedFile (handleFileSelect exactly_500MiB init_ui) = Some exactly_500MiB
   \<and> exactly_500MiB \<in> file_of ` set (fileQueue
        (change_event gen0 (Some ''starter'') [vid ''a.mp4'', exactly_500MiB] init_ui))
   \<and> fsize over_500MiB = 500 * 1024 * 1024 + 1
   \<and> fileQueue (addToQueue gen0 over_500MiB init_ui) = []
   \<and> selectedFile (handleFileSelect over_500MiB init_ui) = None"
proof -
  have e1: "ext exactly_500MiB \<in> {''.mp4'', ''.mov'', ''.avi'', ''.mkv''}"
    using ext_fname_vid [of exactly_500MiB] by (simp add: exactly_500MiB_def ext_vid)
  have e2: "ext over_500MiB \<in> {''.mp4'', ''.mov'', ''.avi'', ''.mkv''}"
    using ext_fname_vid [of over_500MiB] by (simp add: over_500MiB_def ext_vid)
  have s1: "fsize exactly_500MiB = 500 * 1024 * 1024" by (simp add: exactly_500MiB_def)
  have s2: "fsize over_500MiB = 500 * 1024 * 1024 + 1" by (simp add: over_500MiB_def)
  show ?thesis
    using size_limit_boundary [OF e1, of gen0 init_ui "[vid ''a.mp4'', exactly_500MiB]" "Some ''starter''" 1]
      size_limit_boundary [OF e2, of gen0 init_ui "[]" None 0] s1 s2
    by (simp add: maxFilesFor_values init_ui_def showError_def)
qed

subsection \<open>Capacity\<close>

text \<open>
  Claim C4, as the code has it. The files of a change event reach the queue only in
  multi-file mode (more than one file selected and a plan capacity above one); there the
  batch is cut to the remaining capacity before \<open>addToQueue\<close> sees it. Hence: for
  every sequence of change events against one plan, a queue within capacity stays within
  capacity; once the queue length equals the capacity every further change event leaves
  the queue as it is; a batch of capacity plus one acceptable files, offered to an empty
  queue on a plan with capacity above one, queues exactly all but the last, in order; and
  with capacity one, or with a single selected file, the queue is not touched at all.
\<close>

theorem change_event_capacity:
  "(length (fileQueue s) \<le> maxFilesFor tier \<longrightarrow>
      length (fileQueue (change_events gen tier batches s)) \<le> maxFilesFor tier)
   \<and> (length (fileQueue s) = maxFilesFor tier \<longrightarrow>
      fileQueue (change_event gen tier files s) = fileQueue s)
   \<and> (fileQueue s = [] \<and> 1 < maxFilesFor tier \<and> length files = Suc (maxFilesFor tier)
        \<and> (\<forall>f\<in>set files. accepts f) \<longrightarrow>
      map file_of (fileQueue (change_event gen tier files s)) = butlast files)
   \<and> (maxFilesFor tier = 1 \<or> length files \<le> 1 \<longrightarrow>
      fileQueue (change_event gen tier files s) = fileQueue s)
   \<and> ((maxFilesFor tier = 1 \<or> length files \<le> 1) \<and> files = f # rest \<and> accepts f \<longrightarrow>
      change_event gen tier files s = s\<lparr>selectedFile := Some f\<rparr>)"
proof -
  have exact: "map file_of (fileQueue (change_event gen tier files s)) = butlast files"
    if "fileQueue s = []" "1 < maxFilesFor tier" "length files = Suc (maxFilesFor tier)"
       "\<forall>f\<in>set files. accepts f"
    using that by (simp add: change_event_exact butlast_conv_take)
  have single: "fileQueue (change_event gen tier files s) = fileQueue s"
    if "maxFilesFor tier = 1 \<or> length files \<le> 1"
    using that by (intro change_event_queue_single) auto
  have slot: "change_event gen tier files s = s\<lparr>selectedFile := Some f\<rparr>"
    if "maxFilesFor tier = 1 \<or> length files \<le> 1" "files = f # rest" "accepts f"
    using that
    by (auto simp: change_event_def fileInput_change_def Let_def handleFileSelect_def
        accepts_def maxSize_def)
  show ?thesis
    using change_events_within [of s tier gen batches] change_event_full [of s tier gen files]
      exact single slot by blast
qed

text \<open>
  The theorem on the starter plan (capacity 5) with a batch of six videos: five are
  queued, a second batch changes nothing, two batches in a row stay within five; and on
  the free plan the same batch leaves the queue empty.
\<close>

theorem change_event_capacity_witness:
  "length (fileQueue (change_events gen0 (Some ''starter'') [six_videos, six_videos] init_ui)) \<le> 5
   \<and> map file_of (fileQueue (change_event gen0 (Some ''starter'') six_videos init_ui))
       = [vid ''a.mp4'', vid ''b.mov'', vid ''c.avi'', vid ''d.mkv'', vid ''e.MP4'']
   \<and> fileQueue (change_event gen0 (Some ''starter'') six_videos
        (change_event gen0 (Some ''starter'') six_videos init_ui))
       = fileQueue (change_event gen0 (Some ''starter'') six_videos init_ui)
   \<and> fileQueue (change_event gen0 (Some ''free'') six_videos init_ui) = []
   \<and> change_event gen0 (Some ''starter'') [vid ''f.mp4''] init_ui
       = init_ui\<lparr>selectedFile := Some (vid ''f.mp4'')\<rparr>"
proof -
  let ?full = "change_event gen0 (Some ''starter'') six_videos init_ui"
  have acc: "\<forall>f\<in>set six_videos. accepts f" by (simp add: six_videos_def accepts_vid)
  have len: "length six_videos = Suc (maxFilesFor (Some ''starter''))"
    by (simp add: six_videos_def maxFilesFor_values)
  have first: "map file_of (fileQueue ?full)
       = [vid ''a.mp4'', vid ''b.mov'', vid ''c.avi'', vid ''d.mkv'', vid ''e.MP4'']
     \<and> length (fileQueue (change_events gen0 (Some ''starter'') [six_videos, six_videos] init_ui)) \<le> 5"
    using change_event_capacity [of init_ui "Some ''starter''" gen0 "[six_videos, six_videos]" six_videos]
      acc len
    by (simp add: maxFilesFor_values init_ui_def) (simp add: six_videos_def)
  then have "length (map file_of (fileQueue ?full)) = 5" by simp
  then have full: "length (fileQueue ?full) = maxFilesFor (Some ''starter'')"
    by (simp add: maxFilesFor_values)
  have second: "fileQueue (change_event gen0 (Some ''starter'') six_videos ?full) = fileQueue ?full"
    using change_event_capacity [of ?full "Some ''starter''" gen0 "[]" six_videos] full by blast
  have third: "fileQueue (change_event gen0 (Some ''free'') six_videos init_ui) = []"
    using change_event_capacity [of init_ui "Some ''free''" gen0 "[]" six_videos]
    by (simp add: maxFilesFor_values init_ui_def)
  have fourth: "change_event gen0 (Some ''starter'') [vid ''f.mp4''] init_ui
       = init_ui\<lparr>selectedFile := Some (vid ''f.mp4'')\<rparr>"
    using change_event_capacity [where s = init_ui and tier = "Some ''starter''" and gen = gen0
        and batches = "[]" and files = "[vid ''f.mp4'']" and f = "vid ''f.mp4''" and rest = "[]"]
    by (simp add: accepts_vid)
  show ?thesis using first second third fourth by blast
qed

lemma change_event_one_file: "change_event gen tier [f] s = handleFileSelect f s"
  by (simp add: change_event_def fileInput_change_def)

lemma handleFileSelect_accepts: "accepts f \<Longrightarrow> handleFileSelect f s = s\<lparr>selectedFile := Some f\<rparr>"
  by (simp add: handleFileSelect_def accepts_def maxSize_def)

lemma forEach_selected: "selectedFile (forEach_addToQueue gen fs s) = selectedFile s"
proof (induction fs arbitrary: s)
  case Nil
  show ?case by (simp add: forEach_addToQueue_def)
next
  case (Cons f fs)
  have "forEach_addToQueue gen (f # fs) s = forEach_addToQueue gen fs (addToQueue gen f s)"
    by (simp add: forEach_addToQueue_def)
  moreover have "selectedFile (addToQueue gen f s) = selectedFile s"
    by (simp add: addToQueue_def)
  ultimately show ?case using Cons.IH [of "addToQueue gen f s"] by simp
qed

lemma starter_full:
  "map file_of (fileQueue (change_event gen0 (Some ''starter'') six_videos init_ui))
     = [vid ''a.mp4'', vid ''b.mov'', vid ''c.avi'', vid ''d.mkv'', vid ''e.MP4'']"
proof -
  have "fileQueue (change_event gen0 (Some ''starter'') six_videos init_ui)
      = mk_items gen0 (draws init_ui) (take (maxFilesFor (Some ''starter'')) six_videos)"
    by (rule change_event_exact)
      (simp_all add: init_ui_def maxFilesFor_values six_videos_def accepts_vid)
  then show ?thesis by (simp add: maxFilesFor_values six_videos_def)
qed

text \<open>
  Claim C4 as the specification words it (capacity \<open>c\<close> accepts exactly \<open>c\<close> files,
  and a full queue rejects every further file) fails. On the free plan, capacity 1, a
  selection of two videos puts no file into the queue: the first becomes the selected
  single file and the second is dropped. On the starter plan, capacity 5, three videos
  selected one at a time never reach the queue either. And when the starter queue is
  full with five items, a sixth video selected on its own is not rejected: it is stored
  as the selected single file. Two videos dropped onto the upload area on the free plan
  end the same way as two selected ones.
\<close>

theorem capacity_one_queue_unused:
  "maxFilesFor (Some ''free'') = 1
   \<and> length (fileQueue (change_event gen0 (Some ''free'') [vid ''a.mp4'', vid ''b.mov''] init_ui)) = 0
   \<and> selectedFile (change_event gen0 (Some ''free'') [vid ''a.mp4'', vid ''b.mov''] init_ui)
       = Some (vid ''a.mp4'')
   \<and> maxFilesFor (Some ''starter'') = 5
   \<and> length (fileQueue (change_events gen0 (Some ''starter'')
        [[vid ''a.mp4''], [vid ''b.mov''], [vid ''c.avi'']] init_ui)) = 0
   \<and> length (fileQueue (change_event gen0 (Some ''starter'') six_videos init_ui)) = 5
   \<and> selectedFile (change_event gen0 (Some ''starter'') six_videos init_ui) = None
   \<and> selectedFile (change_event gen0 (Some ''starter'') [vid ''f.mp4'']
        (change_event gen0 (Some ''starter'') six_videos init_ui)) = Some (vid ''f.mp4'')
   \<and> length (fileQueue (uploadArea_drop gen0 (Some ''free'') [vid ''a.mp4'', vid ''b.mov''] init_ui)) = 0
   \<and> selectedFile (uploadArea_drop gen0 (Some ''free'') [vid ''a.mp4'', vid ''b.mov''] init_ui)
       = Some (vid ''a.mp4'')"
proof -
  have first: "maxFilesFor (Some ''free'') = 1
   \<and> length (fileQueue (change_event gen0 (Some ''free'') [vid ''a.mp4'', vid ''b.mov''] init_ui)) = 0
   \<and> selectedFile (change_event gen0 (Some ''free'') [vid ''a.mp4'', vid ''b.mov''] init_ui)
       = Some (vid ''a.mp4'')
   \<and> maxFilesFor (Some ''starter'') = 5
   \<and> length (fileQueue (change_events gen0 (Some ''starter'')
        [[vid ''a.mp4''], [vid ''b.mov''], [vid ''c.avi'']] init_ui)) = 0"
    by (simp add: maxFilesFor_values change_events_def change_event_def fileInput_change_def
        handleFileSelect_def ext_vid allowed_def maxSize_def)
      (simp add: vid_def init_ui_def)
  have "length (map file_of (fileQueue (change_event gen0 (Some ''starter'') six_videos init_ui))) = 5"
    by (simp only: starter_full) simp
  then have full: "length (fileQueue (change_event gen0 (Some ''starter'') six_videos init_ui)) = 5"
    by simp
  have none: "selectedFile (change_event gen0 (Some ''starter'') six_videos init_ui) = None"
    by (simp add: change_event_def fileInput_change_def maxFilesFor_values six_videos_def
        forEach_selected init_ui_def Let_def)
  have sel: "selectedFile (change_event gen0 (Some ''starter'') [vid ''f.mp4'']
        (change_event gen0 (Some ''starter'') six_videos init_ui)) = Some (vid ''f.mp4'')"
    by (simp add: change_event_one_file handleFileSelect_accepts accepts_vid)
  have drop: "length (fileQueue (uploadArea_drop gen0 (Some ''free'') [vid ''a.mp4'', vid ''b.mov''] init_ui)) = 0
   \<and> selectedFile (uploadArea_drop gen0 (Some ''free'') [vid ''a.mp4'', vid ''b.mov''] init_ui)
       = Some (vid ''a.mp4'')"
    by (simp add: maxFilesFor_values uploadArea_drop_def handleFileSelect_def ext_vid allowed_def
        maxSize_def)
      (simp add: vid_def init_ui_def)
  show ?thesis using first full none sel drop by simp
qed

section \<open>Properties of the upload pipeline\<close>

lemma upload_item_step:
  assumes "fileQueue s = pre @ it # post" "k = length pre"
  shows "upload_item net k (d, s) =
     (case payload_of (net k) of Some data \<Rightarrow> Suc d | None \<Rightarrow> d,
      s\<lparr>fileQueue := pre @ settle_item (net k) it # post,
        trace := trace s @
          [SetStatus k Uploading, Render, FetchBegin k, FetchEnd k,
           SetStatus k (case payload_of (net k) of Some data \<Rightarrow> Done | None \<Rightarrow> Failed),
           ButtonText (case payload_of (net k) of Some data \<Rightarrow> Suc d | None \<Rightarrow> d)
             (length (fileQueue s)), Render, Delay 500]\<rparr>)"
  using assms
  by (auto simp: upload_item_def Let_def emit_def update_item_def settle_item_def payload_of_def
      split: settled.splits option.splits)

lemma successes_Suc:
  "successes net (Suc k) = (case payload_of (net k) of Some data \<Rightarrow> Suc (successes net k) | None \<Rightarrow> successes net k)"
  by (simp add: successes_def split: option.splits)

lemma settled_prefix_split:
  assumes "k < length q"
  shows "settled_prefix net k q = map (\<lambda>i. settle_item (net i) (q ! i)) [0..<k] @ (q ! k) # drop (Suc k) q"
    and "settled_prefix net (Suc k) q
       = map (\<lambda>i. settle_item (net i) (q ! i)) [0..<k] @ settle_item (net k) (q ! k) # drop (Suc k) q"
  using assms by (simp_all add: settled_prefix_def Cons_nth_drop_Suc)

lemma loop_prefix:
  assumes "k \<le> length (fileQueue s)"
  shows "fold (upload_item net) [0..<k] (0, s) =
     (successes net k,
      s\<lparr>fileQueue := settled_prefix net k (fileQueue s),
        trace := trace s @ concat (map (item_block net (length (fileQueue s))) [0..<k])\<rparr>)"
  using assms
proof (induction k)
  case 0
  show ?case by (simp add: successes_def settled_prefix_def)
next
  case (Suc k)
  let ?q = "fileQueue s"
  let ?mid = "s\<lparr>fileQueue := settled_prefix net k ?q,
        trace := trace s @ concat (map (item_block net (length ?q)) [0..<k])\<rparr>"
  have k: "k < length ?q" using Suc.prems by simp
  have IH: "fold (upload_item net) [0..<k] (0, s) = (successes net k, ?mid)"
    using Suc.IH k by simp
  have q1: "fileQueue ?mid = map (\<lambda>i. settle_item (net i) (?q ! i)) [0..<k] @ (?q ! k) # drop (Suc k) ?q"
    using settled_prefix_split(1) [OF k] by simp
  have len: "length (fileQueue ?mid) = length ?q"
    using k by (simp add: settled_prefix_def)
  have "fold (upload_item net) [0..<Suc k] (0, s) = upload_item net k (successes net k, ?mid)"
    by (simp add: IH)
  also have "\<dots> = (successes net (Suc k),
      s\<lparr>fileQueue := settled_prefix net (Suc k) ?q,
        trace := trace s @ concat (map (item_block net (length ?q)) [0..<Suc k])\<rparr>)"
    using upload_item_step [OF q1, of k net "successes net k"] len k
    by (simp add: successes_Suc settled_prefix_split(2) [OF k] item_block_def)
  finally show ?case .
qed

lemma processQueue_loop:
  assumes "fileQueue s \<noteq> []"
  shows "processQueue net s = aggregate (after_loop net s)"
proof -
  let ?s0 = "emit [ButtonText 0 (length (fileQueue s))] s"
  have "fold (upload_item net) [0..<length (fileQueue ?s0)] (0, ?s0) =
     (successes net (length (fileQueue ?s0)),
      ?s0\<lparr>fileQueue := settled_prefix net (length (fileQueue ?s0)) (fileQueue ?s0),
        trace := trace ?s0 @ concat (map (item_block net (length (fileQueue ?s0)))
           [0..<length (fileQueue ?s0)])\<rparr>)"
    by (rule loop_prefix) simp
  then have "snd (fold (upload_item net) [0..<length (fileQueue s)] (0, ?s0)) = after_loop net s"
    by (simp add: emit_def after_loop_def settled_prefix_def)
  with assms show ?thesis by (simp add: processQueue_def)
qed

lemma settle_item_status:
  "status (settle_item r it) = (case payload_of r of Some data \<Rightarrow> Done | None \<Rightarrow> Failed)"
  "status (settle_item r it) = Done \<Longrightarrow> result (settle_item r it) = payload_of r \<and> payload_of r \<noteq> None"
  by (auto simp: settle_item_def split: option.splits)

lemma after_loop_nth:
  "i < length (fileQueue s) \<Longrightarrow> fileQueue (after_loop net s) ! i = settle_item (net i) (fileQueue s ! i)"
  by (simp add: after_loop_def)

lemma after_loop_length [simp]: "length (fileQueue (after_loop net s)) = length (fileQueue s)"
  by (simp add: after_loop_def)

lemma appendSegments_names:
  "appendSegments (map Some names) s = Inr (s\<lparr>segmentsList := segmentsList s @ names\<rparr>)"
  by (induction names arbitrary: s) simp_all

lemma appendSegments_frame:
  "fileQueue (final_state (appendSegments segs s)) = fileQueue s
   \<and> trace (final_state (appendSegments segs s)) = trace s
   \<and> shown (final_state (appendSegments segs s)) = shown s
   \<and> errorMessage (final_state (appendSegments segs s)) = errorMessage s
   \<and> currentJobId (final_state (appendSegments segs s)) = currentJobId s
   \<and> displayed (final_state (appendSegments segs s)) = displayed s"
  by (induction segs s rule: appendSegments.induct) (simp_all add: final_state_def)

lemma appendSegments_null:
  "None \<in> set segs \<Longrightarrow> appendSegments segs s = Inl (TypeError, final_state (appendSegments segs s))"
  by (induction segs s rule: appendSegments.induct) (auto simp: final_state_def)

lemma all_named: "list_all (\<lambda>x. x \<noteq> None) segs \<Longrightarrow> \<exists>names. segs = map Some names"
proof (induction segs)
  case Nil
  then show ?case by simp
next
  case (Cons x segs)
  then obtain names where "segs = map Some names" by auto
  moreover obtain n where "x = Some n" using Cons.prems by auto
  ultimately have "x # segs = map Some (n # names)" by simp
  then show ?case by (rule exI)
qed

lemma not_all_named: "\<not> list_all (\<lambda>x. x \<noteq> None) segs \<Longrightarrow> None \<in> set segs"
  by (induction segs) auto

lemma displayResults_frame:
  "fileQueue (final_state (displayResults data s)) = fileQueue s
   \<and> trace (final_state (displayResults data s)) = trace s
   \<and> errorMessage (final_state (displayResults data s)) = errorMessage s
   \<and> currentJobId (final_state (displayResults data s)) = currentJobId s
   \<and> displayed (final_state (displayResults data s)) = Some data"
proof (cases "segments data")
  case None
  then show ?thesis by (simp add: displayResults_def final_state_def)
next
  case (Some segs)
  let ?s1 = "s\<lparr>displayed := Some data, segmentsList := []\<rparr>"
  note fr = appendSegments_frame [of segs ?s1]
  show ?thesis
  proof (cases "appendSegments segs ?s1")
    case (Inl ex)
    with Some fr show ?thesis by (simp add: displayResults_def final_state_def)
  next
    case (Inr s2)
    with Some fr show ?thesis by (simp add: displayResults_def final_state_def)
  qed
qed

lemma displayResults_well_formed:
  assumes "well_formed (JValue data)"
  shows "displayResults data s = Inr (final_state (displayResults data s))
     \<and> shown (final_state (displayResults data s)) = SecResults"
proof -
  obtain segs where segs: "segments data = Some segs" "list_all (\<lambda>x. x \<noteq> None) segs"
    using assms by (auto simp: well_formed_def split: option.splits)
  then obtain names where "segs = map Some names" using all_named by blast
  with segs(1) show ?thesis
    by (simp add: displayResults_def appendSegments_names final_state_def)
qed

lemma displayResults_malformed:
  assumes "\<not> well_formed (JValue data)"
  shows "displayResults data s = Inl (TypeError, final_state (displayResults data s))
     \<and> shown (final_state (displayResults data s)) = shown s"
proof (cases "segments data")
  case None
  then show ?thesis by (simp add: displayResults_def final_state_def)
next
  case (Some segs)
  let ?s1 = "s\<lparr>displayed := Some data, segmentsList := []\<rparr>"
  have "None \<in> set segs"
    using assms Some by (intro not_all_named) (simp add: well_formed_def)
  then have "appendSegments segs ?s1 = Inl (TypeError, final_state (appendSegments segs ?s1))"
    by (rule appendSegments_null)
  then obtain s' where thrown: "appendSegments segs ?s1 = Inl (TypeError, s')" by blast
  have "shown (final_state (appendSegments segs ?s1)) = shown s"
    using appendSegments_frame [of segs ?s1] by simp
  then have "shown s' = shown s" using thrown by (simp add: final_state_def)
  moreover have "displayResults data s = Inl (TypeError, s')"
    using Some thrown by (simp add: displayResults_def)
  ultimately show ?thesis by (simp add: final_state_def)
qed

lemma aggregate_frame:
  "fileQueue (final_state (aggregate t)) = fileQueue t
   \<and> trace (final_state (aggregate t)) = trace t"
  using displayResults_frame
  by (auto simp: aggregate_def final_state_def showError_def split: option.splits json.splits)

lemma first_done_find:
  assumes "i < length q" "status (q ! i) = Done" "\<forall>j<i. status (q ! j) \<noteq> Done"
  shows "find (\<lambda>f. status f = Done) q = Some (q ! i)"
  using assms by (auto simp: find_Some_iff)

lemma aggregate_none_done:
  assumes "\<forall>i<length (fileQueue t). status (fileQueue t ! i) \<noteq> Done"
  shows "aggregate t = Inr (showError MsgAllFailed t)"
proof -
  have "find (\<lambda>f. status f = Done) (fileQueue t) = None"
    using assms by (auto simp: find_None_iff in_set_conv_nth)
  then show ?thesis by (simp add: aggregate_def)
qed

lemma aggregate_first_done:
  assumes "i < length (fileQueue t)" "status (fileQueue t ! i) = Done"
    "\<forall>j<i. status (fileQueue t ! j) \<noteq> Done" "result (fileQueue t ! i) = Some p"
  shows "aggregate t =
     (case p of JNull \<Rightarrow> Inl (TypeError, t)
      | JValue data \<Rightarrow> displayResults data (t\<lparr>currentJobId := job_id data\<rparr>))"
  using first_done_find [OF assms(1-3)] assms(4) by (simp add: aggregate_def)

text \<open>What the code after the loop does for the first done item, by its payload.\<close>

lemma aggregate_first_cases:
  assumes "i < length (fileQueue t)" "status (fileQueue t ! i) = Done"
    "\<forall>j<i. status (fileQueue t ! j) \<noteq> Done" "result (fileQueue t ! i) = Some p"
  shows "(well_formed p \<longrightarrow> aggregate t = Inr (final_state (aggregate t))
            \<and> shown (final_state (aggregate t)) = SecResults)
     \<and> (\<not> well_formed p \<longrightarrow> aggregate t = Inl (TypeError, final_state (aggregate t))
            \<and> shown (final_state (aggregate t)) = shown t)
     \<and> (\<forall>data. p = JValue data \<longrightarrow> currentJobId (final_state (aggregate t)) = job_id data
            \<and> displayed (final_state (aggregate t)) = Some data)
     \<and> errorMessage (final_state (aggregate t)) = errorMessage t"
proof (cases p)
  case JNull
  then have "aggregate t = Inl (TypeError, t)"
    using aggregate_first_done [OF assms] by simp
  with JNull show ?thesis by (simp add: final_state_def well_formed_def)
next
  case (JValue data)
  let ?t1 = "t\<lparr>currentJobId := job_id data\<rparr>"
  have agg: "aggregate t = displayResults data ?t1"
    using aggregate_first_done [OF assms] JValue by simp
  note fr = displayResults_frame [of data ?t1]
  show ?thesis
  proof (cases "well_formed p")
    case True
    with JValue agg fr displayResults_well_formed [of data ?t1] show ?thesis by simp
  next
    case False
    with JValue agg fr displayResults_malformed [of data ?t1] show ?thesis by simp
  qed
qed

lemma after_loop_results:
  "\<forall>f\<in>set (fileQueue (after_loop net s)). status f = Done \<longrightarrow> result f \<noteq> None"
  by (auto simp: after_loop_def settle_item_def split: option.splits)

lemma upt_3: "[0..<3] = [0, 1, 2]"
  by (simp add: upt_rec)

lemma payload_net3:
  "payload_of (net3 0) = Some (JValue (job 0))" "payload_of (net3 (Suc 0)) = None"
  "payload_of (net3 (Suc (Suc 0))) = Some (JValue (job 2))"
  by (simp_all add: payload_of_def net3_def ok_def numeral_2_eq_2)

lemma successes_net3:
  "successes net3 (Suc 0) = 1" "successes net3 (Suc (Suc 0)) = 1"
  "successes net3 (Suc (Suc (Suc 0))) = 2"
  by (simp_all add: successes_Suc payload_net3 successes_def)

lemma after_loop_three:
  "after_loop net3 three_queued =
     three_done\<lparr>currentJobId := None, shown := SecUpload, displayed := None, segmentsList := []\<rparr>"
  by (simp add: after_loop_def three_queued_def three_done_def init_ui_def upt_3 item_block_def
      settle_item_def payload_net3 successes_net3)

lemma processQueue_three: "processQueue net3 three_queued = Inr three_done"
proof -
  have "fileQueue three_queued \<noteq> []" by (simp add: three_queued_def)
  then have "processQueue net3 three_queued = aggregate (after_loop net3 three_queued)"
    by (rule processQueue_loop)
  then show ?thesis
    by (simp add: after_loop_three aggregate_def three_done_def displayResults_def init_ui_def
        job_def)
qed

lemma processQueue_single:
  assumes "fileQueue q = [it]"
  shows "processQueue net q = aggregate
     (q\<lparr>fileQueue := [settle_item (net 0) it],
        trace := trace q @ ButtonText 0 1 # item_block net 1 0\<rparr>)"
proof -
  have "fileQueue q \<noteq> []" using assms by simp
  then have "processQueue net q = aggregate (after_loop net q)" by (rule processQueue_loop)
  then show ?thesis using assms by (simp add: after_loop_def)
qed

lemma one_item_queue:
  "fileQueue (one_item st)
     = [\<lparr>item_id = ''a'', file_of = vid ''v.mp4'', status = st, result = None\<rparr>]"
  by (simp add: one_item_def)

lemma processQueue_bare:
  "processQueue (all_settle (Fulfilled r200_bare)) (one_item Queued) = Inl (TypeError, bare_thrown)"
  by (simp add: processQueue_single [OF one_item_queue] settle_item_def payload_of_def
      all_settle_def ok_def r200_bare_def aggregate_def displayResults_def bare_job_def
      item_block_def successes_def bare_thrown_def one_trace_def)
    (simp add: one_item_def init_ui_def)


lemma processQueue_all_rejected:
  "processQueue all_rejected (one_item Queued) = Inr one_failed"
  by (simp add: processQueue_single [OF one_item_queue] settle_item_def payload_of_def
      all_rejected_def aggregate_def showError_def item_block_def successes_def one_failed_def one_trace_def)
    (simp add: one_item_def init_ui_def)

lemma upt_adjacent:
  assumes "Suc i < n"
  shows "[0..<n] = [0..<i] @ i # Suc i # [Suc (Suc i)..<n]"
proof -
  have "[0..<n] = [0..<i] @ [i..<n]"
    using assms upt_add_eq_append [of 0 i "n - i"] by simp
  also have "[i..<n] = i # Suc i # [Suc (Suc i)..<n]"
    using assms by (simp add: upt_conv_Cons)
  finally show ?thesis .
qed

subsection \<open>Sequential processing\<close>

text \<open>
  Claim C6. Whatever the transports answer, what a run of \<open>processQueue\<close> on a
  non-empty queue does up to the end of its loop is the button text
  \<open>Processing 0 / n\<close> followed by one block per item, in queue order. The block of
  item \<open>i\<close> is: its status is set to uploading and the queue is redrawn, \<open>apiFetch\<close>
  is called and awaited, the item's terminal status (done or failed) is written, the
  button text and the queue are redrawn, and the 500 ms delay is awaited. The block of
  item \<open>i + 1\<close> follows the complete block of item \<open>i\<close>: its transport begins only
  after item \<open>i\<close> has its terminal status, and its uploading transition is reported
  after that of item \<open>i\<close> and after the progress of item \<open>i\<close>. This is so whether the
  code after the loop then returns or throws.
\<close>

theorem processQueue_sequential:
  assumes "fileQueue s \<noteq> []"
  shows "trace (final_state (processQueue net s)) =
       trace s @ ButtonText 0 (length (fileQueue s)) #
          concat (map (item_block net (length (fileQueue s))) [0..<length (fileQueue s)])
     \<and> (\<forall>i. Suc i < length (fileQueue s) \<longrightarrow>
          (\<exists>before after. trace (final_state (processQueue net s)) = trace s @ before
              @ item_block net (length (fileQueue s)) i
              @ item_block net (length (fileQueue s)) (Suc i) @ after))"
proof -
  let ?n = "length (fileQueue s)"
  let ?blocks = "\<lambda>is. concat (map (item_block net ?n) is)"
  let ?S = "final_state (processQueue net s)"
  have "?S = final_state (aggregate (after_loop net s))"
    using processQueue_loop [OF assms] by simp
  then have "trace ?S = trace (after_loop net s)"
    using aggregate_frame [of "after_loop net s"] by simp
  then have tr: "trace ?S = trace s @ ButtonText 0 ?n # ?blocks [0..<?n]"
    by (simp add: after_loop_def)
  have adj: "\<exists>before after. trace ?S = trace s @ before
              @ item_block net ?n i @ item_block net ?n (Suc i) @ after"
    if "Suc i < ?n" for i
  proof -
    have "trace ?S = trace s @ (ButtonText 0 ?n # ?blocks [0..<i])
        @ item_block net ?n i @ item_block net ?n (Suc i) @ ?blocks [Suc (Suc i)..<?n]"
      using tr upt_adjacent [OF that] by simp
    then show ?thesis by blast
  qed
  show ?thesis using tr adj by blast
qed

text \<open>
  The theorem on a queue of three items whose second transport is rejected, where
  \<open>processQueue\<close> returns, and on a queue of one item whose 200 body has no
  \<open>segments\<close>, where it throws after the loop.
\<close>

theorem processQueue_sequential_witness:
  "fileQueue three_queued \<noteq> []
   \<and> processQueue net3 three_queued = Inr three_done
   \<and> trace three_done =
      [ButtonText 0 3,
       SetStatus 0 Uploading, Render, FetchBegin 0, FetchEnd 0, SetStatus 0 Done,
         ButtonText 1 3, Render, Delay 500,
       SetStatus 1 Uploading, Render, FetchBegin 1, FetchEnd 1, SetStatus 1 Failed,
         ButtonText 1 3, Render, Delay 500,
       SetStatus 2 Uploading, Render, FetchBegin 2, FetchEnd 2, SetStatus 2 Done,
         ButtonText 2 3, Render, Delay 500]
   \<and> fileQueue (one_item Queued) \<noteq> []
   \<and> processQueue (all_settle (Fulfilled r200_bare)) (one_item Queued) = Inl (TypeError, bare_thrown)
   \<and> trace bare_thrown =
      [ButtonText 0 1, SetStatus 0 Uploading, Render, FetchBegin 0, FetchEnd 0,
       SetStatus 0 Done, ButtonText 1 1, Render, Delay 500]"
proof -
  have ne: "fileQueue three_queued \<noteq> []" by (simp add: three_queued_def)
  have ne1: "fileQueue (one_item Queued) \<noteq> []" by (simp add: one_item_def)
  show ?thesis
    using processQueue_sequential [OF ne, of net3] processQueue_three ne
      processQueue_sequential [OF ne1, of "all_settle (Fulfilled r200_bare)"] processQueue_bare ne1
    by (simp add: three_done_def bare_thrown_def one_trace_def init_ui_def)
qed

subsection \<open>Failure isolation\<close>

text \<open>
  Claim C7, as the code has it. For every queue and every way a transport can fail
  (\<open>apiFetch\<close> rejects on a network failure; it returns a response that is not \<open>ok\<close>,
  be it a validation or server error or the 401 left after the refresh path; or the body
  of an \<open>ok\<close> response does not parse), the failed item ends with status failed and is
  otherwise unchanged, so no reason is stored with it; an item whose transport succeeds
  ends done with its payload. What an item ends as depends on its own transport only, so
  the items after a failed one are still processed. And when every payload of a
  successful transport is one that \<open>displayResults\<close> can draw (in particular when all
  transports fail), \<open>processQueue\<close> returns normally: no failure is thrown past it.
\<close>

theorem processQueue_isolates_failures:
  "length (fileQueue (final_state (processQueue net s))) = length (fileQueue s)
   \<and> (\<forall>i<length (fileQueue s).
        (net i = Rejected \<or> (\<exists>r. net i = Fulfilled r \<and> (\<not> ok r \<or> body r = None)) \<longrightarrow>
           fileQueue (final_state (processQueue net s)) ! i = (fileQueue s ! i)\<lparr>status := Failed\<rparr>)
      \<and> (\<forall>r data. net i = Fulfilled r \<and> ok r \<and> body r = Some data \<longrightarrow>
           fileQueue (final_state (processQueue net s)) ! i
             = (fileQueue s ! i)\<lparr>status := Done, result := Some data\<rparr>))
   \<and> ((\<forall>i<length (fileQueue s). \<forall>p. payload_of (net i) = Some p \<longrightarrow> well_formed p) \<longrightarrow>
        processQueue net s = Inr (final_state (processQueue net s)))"
proof (cases "fileQueue s = []")
  case True
  then show ?thesis by (simp add: processQueue_def final_state_def)
next
  case False
  let ?t = "after_loop net s"
  let ?S = "final_state (processQueue net s)"
  have S: "?S = final_state (aggregate ?t)" and run: "processQueue net s = aggregate ?t"
    using processQueue_loop [OF False] by simp_all
  have q: "fileQueue ?S = fileQueue ?t"
    using S aggregate_frame [of ?t] by simp
  have item: "fileQueue ?S ! i = settle_item (net i) (fileQueue s ! i)"
    if "i < length (fileQueue s)" for i
    using that q by (simp add: after_loop_nth)
  have bad: "fileQueue ?S ! i = (fileQueue s ! i)\<lparr>status := Failed\<rparr>"
    if "i < length (fileQueue s)"
       "net i = Rejected \<or> (\<exists>r. net i = Fulfilled r \<and> (\<not> ok r \<or> body r = None))" for i
    using item [OF that(1)] that(2) by (auto simp: settle_item_def payload_of_def)
  have good: "fileQueue ?S ! i = (fileQueue s ! i)\<lparr>status := Done, result := Some data\<rparr>"
    if "i < length (fileQueue s)" "net i = Fulfilled r \<and> ok r \<and> body r = Some data" for i r data
    using item [OF that(1)] that(2) by (simp add: settle_item_def payload_of_def)
  have len: "length (fileQueue ?S) = length (fileQueue s)" using q by simp
  have normal: "processQueue net s = Inr ?S"
    if wf: "\<forall>i<length (fileQueue s). \<forall>p. payload_of (net i) = Some p \<longrightarrow> well_formed p"
  proof (cases "\<forall>i<length (fileQueue ?t). status (fileQueue ?t ! i) \<noteq> Done")
    case True
    then have "aggregate ?t = Inr (showError MsgAllFailed ?t)" by (rule aggregate_none_done)
    then show ?thesis using run by (simp add: final_state_def)
  next
    case False
    then have "\<exists>i. i < length (fileQueue ?t) \<and> status (fileQueue ?t ! i) = Done" by blast
    then obtain i where i: "i < length (fileQueue ?t)" "status (fileQueue ?t ! i) = Done"
        "\<forall>j<i. \<not> (j < length (fileQueue ?t) \<and> status (fileQueue ?t ! j) = Done)"
      using exists_least_iff [of "\<lambda>i. i < length (fileQueue ?t) \<and> status (fileQueue ?t ! i) = Done"]
      by blast
    then have first: "\<forall>j<i. status (fileQueue ?t ! j) \<noteq> Done" by auto
    have il: "i < length (fileQueue s)" using i(1) by simp
    have "fileQueue ?t ! i = settle_item (net i) (fileQueue s ! i)"
      using il by (rule after_loop_nth)
    with i(2) settle_item_status(2) [of "net i" "fileQueue s ! i"]
    obtain p where p: "result (fileQueue ?t ! i) = Some p" "payload_of (net i) = Some p"
      by auto
    then have "well_formed p" using wf il by blast
    then have "aggregate ?t = Inr (final_state (aggregate ?t))"
      using aggregate_first_cases [OF i(1,2) first p(1)] by blast
    then show ?thesis using run by simp
  qed
  show ?thesis using len bad good normal by blast
qed

text \<open>
  The theorem on the queue of three, whose payloads are well-formed: \<open>processQueue\<close>
  returns, the second item fails and the third is still done.
\<close>

theorem processQueue_isolates_failures_witness:
  "processQueue net3 three_queued = Inr three_done
   \<and> net3 1 = Rejected
   \<and> fileQueue three_done ! 1 = (fileQueue three_queued ! 1)\<lparr>status := Failed\<rparr>
   \<and> fileQueue three_done ! 2
       = (fileQueue three_queued ! 2)\<lparr>status := Done, result := Some (JValue (job 2))\<rparr>
   \<and> well_formed (JValue (job 0)) \<and> well_formed (JValue (job 2))"
proof -
  have wf: "well_formed (JValue (job i))" for i by (simp add: well_formed_def job_def)
  have "\<forall>i<length (fileQueue three_queued). \<forall>p. payload_of (net3 i) = Some p \<longrightarrow> well_formed p"
    using wf by (auto simp: payload_of_def net3_def split: if_splits)
  then show ?thesis
    using processQueue_isolates_failures [of net3 three_queued] processQueue_three wf
    by (simp add: three_done_def three_queued_def init_ui_def net3_def)
qed

text \<open>
  Claim C7 as the specification words it (a failed status plus a stored reason) fails:
  a rejected transport, a 500, a 401 and a 422 response leave the very same page state
  behind, so the kind of failure cannot be read off the item afterwards.
\<close>

theorem failure_reason_not_stored:
  "all_rejected 0 \<noteq> all_status 500 0
   \<and> all_status 500 0 \<noteq> all_status 401 0
   \<and> processQueue all_rejected (one_item Queued) = Inr one_failed
   \<and> processQueue (all_status 500) (one_item Queued) = Inr one_failed
   \<and> processQueue (all_status 401) (one_item Queued) = Inr one_failed
   \<and> processQueue (all_status 422) (one_item Queued) = Inr one_failed
   \<and> fileQueue one_failed
       = [\<lparr>item_id = ''a'', file_of = vid ''v.mp4'', status = Failed, result = None\<rparr>]"
proof -
  have st: "processQueue (all_status n) (one_item Queued) = Inr one_failed"
    if "\<not> (200 \<le> n \<and> n \<le> 299)" for n
    using that
    by (simp add: processQueue_single [OF one_item_queue] settle_item_def payload_of_def
        all_status_def ok_def aggregate_def showError_def item_block_def successes_def
        one_failed_def one_trace_def)
      (simp add: one_item_def init_ui_def)
  show ?thesis
    using st [of 500] st [of 401] st [of 422] processQueue_all_rejected
    by (simp add: all_rejected_def all_status_def one_failed_def init_ui_def)
qed

subsection \<open>The aggregate result\<close>



section \<open>Properties of the session gateway\<close>

lemmas machine_defs = run_def apiFetch_enter_def on_fetch_def on_refresh_def on_json_def retry_def
  set_request_def finally_refresh_def forEach_refreshQueue_def setTokens_def clearTokens_def
  truthy_def init_session_def Let_def

subsection \<open>Two requests faulting together\<close>

text \<open>
  Claim C1, at two calls that both receive 401 while a refresh token is stored. The first
  becomes the leader and is suspended at the refresh request. The second finds
  \<open>_refreshing\<close> set; nothing has been pushed onto \<open>_refreshQueue\<close>, and the call is
  not suspended until the refresh resolves: it replays at once, with the access token
  still in storage, the old one. When the refresh then succeeds, and the server answers
  the old token with 401 and the new one with 200, the leader's call returns the 200
  response and the other call returns the 401 response, so the two requests do not
  observe one shared outcome. One refresh request was issued.
\<close>

theorem follower_does_not_wait:
  "refreshing (run two_faults expired)
   \<and> pc (requests (run two_faults expired) ! 0) = AwaitRefresh r401
   \<and> pc (requests (run two_faults expired) ! 1) = AwaitRetry
   \<and> authorization (requests (run two_faults expired) ! 1) = Some ''old''
   \<and> refreshQueue (run two_faults expired) = []
   \<and> calls (run two_faults expired) =
        [Fetch 0 (Some ''old''), Fetch 1 (Some ''old''), Refresh 0 (Some ''r1''), Fetch 1 (Some ''old'')]
   \<and> apiFetch_result (run (two_faults @ refresh_succeeds @ replays_settle) expired) 0 = Some (Fulfilled r200)
   \<and> apiFetch_result (run (two_faults @ refresh_succeeds @ replays_settle) expired) 1 = Some (Fulfilled r401)
   \<and> vs_access_token (run (two_faults @ refresh_succeeds @ replays_settle) expired) = Some ''new''"
  by (simp add: machine_defs two_faults_def refresh_succeeds_def replays_settle_def expired_def
      r401_def r200_def apiFetch_result_def)

subsection \<open>At most one refresh per call\<close>

lemma refresh_calls_simps [simp]:
  "refresh_calls k [] = 0"
  "refresh_calls k (cs @ [Fetch j t]) = refresh_calls k cs"
  "refresh_calls k (cs @ [Refresh j t]) = (if j = k then Suc (refresh_calls k cs) else refresh_calls k cs)"
  by (simp_all add: refresh_calls_def)

lemma enter_once: "refreshed_once k s \<Longrightarrow> refreshed_once k (apiFetch_enter s)"
  by (auto simp: refreshed_once_def apiFetch_enter_def Let_def nth_append)

lemma retry_once:
  assumes "refreshed_once k s" "rid < length (requests s)"
  shows "refreshed_once k (retry rid res s)"
  using assms
  by (auto simp: refreshed_once_def retry_def Let_def set_request_def nth_list_update)

lemma on_fetch_once:
  assumes "refreshed_once k s" "rid < length (requests s)"
  shows "refreshed_once k (on_fetch rid r s)"
proof (cases "pc (requests s ! rid)")
  case AwaitFetch
  show ?thesis
  proof (cases r)
    case Rejected
    with AwaitFetch assms show ?thesis
      by (auto simp: refreshed_once_def on_fetch_def Let_def set_request_def nth_list_update)
  next
    case (Fulfilled res)
    have z: "k = rid \<Longrightarrow> refresh_calls k (calls s) = 0"
      using assms AwaitFetch by (simp add: refreshed_once_def)
    show ?thesis
    proof (cases "http_status res = 401 \<and> truthy (vs_refresh_token s)")
      case False
      with AwaitFetch Fulfilled assms show ?thesis
        by (auto simp: refreshed_once_def on_fetch_def Let_def set_request_def nth_list_update)
    next
      case True
      show ?thesis
      proof (cases "refreshing s")
        case False
        with True AwaitFetch Fulfilled assms z show ?thesis
          by (auto simp: refreshed_once_def on_fetch_def Let_def set_request_def nth_list_update)
      next
        case r: True
        have "refreshed_once k (retry rid res s)"
          using assms by (rule retry_once)
        with True r AwaitFetch Fulfilled show ?thesis
          by (simp add: on_fetch_def Let_def)
      qed
    qed
  qed
next
  case AwaitRetry
  with assms show ?thesis
    by (cases r) (auto simp: refreshed_once_def on_fetch_def Let_def set_request_def nth_list_update)
qed (use assms in \<open>simp_all add: on_fetch_def Let_def\<close>)

lemma set_pc_once:
  assumes "refreshed_once k s" "rid < length (requests s)" "p \<noteq> AwaitFetch"
  shows "refreshed_once k (set_request rid ((requests s ! rid)\<lparr>pc := p\<rparr>) s)"
  using assms by (auto simp: refreshed_once_def set_request_def nth_list_update)

lemma on_refresh_once:
  assumes "refreshed_once k s" "rid < length (requests s)"
  shows "refreshed_once k (on_refresh rid r s)"
proof (cases "pc (requests s ! rid)")
  case (AwaitRefresh res)
  let ?f = "finally_refresh s"
  let ?c = "finally_refresh ((clearTokens s)\<lparr>location := Some ''/static/auth.html''\<rparr>)"
  have f: "refreshed_once k ?f" "requests ?f = requests s"
    using assms(1) by (simp_all add: refreshed_once_def finally_refresh_def)
  have c: "refreshed_once k ?c" "requests ?c = requests s"
    using assms(1) by (simp_all add: refreshed_once_def finally_refresh_def clearTokens_def)
  show ?thesis
  proof (cases r)
    case Rejected
    have "refreshed_once k (set_request rid ((requests ?f ! rid)\<lparr>pc := Threw\<rparr>) ?f)"
      using f assms(2) by (intro set_pc_once) simp_all
    with AwaitRefresh Rejected f(2) show ?thesis by (simp add: on_refresh_def Let_def)
  next
    case (Fulfilled st)
    show ?thesis
    proof (cases "200 \<le> st \<and> st \<le> 299")
      case True
      have "refreshed_once k (set_request rid ((requests s ! rid)\<lparr>pc := AwaitRefreshJson res\<rparr>) s)"
        using assms by (intro set_pc_once) simp_all
      with AwaitRefresh Fulfilled True show ?thesis by (simp add: on_refresh_def Let_def)
    next
      case False
      have "refreshed_once k (retry rid res ?c)"
        using c assms(2) by (intro retry_once) simp_all
      with AwaitRefresh Fulfilled False show ?thesis by (auto simp: on_refresh_def Let_def)
    qed
  qed
qed (use assms in \<open>simp_all add: on_refresh_def Let_def\<close>)

lemma on_json_once:
  assumes "refreshed_once k s" "rid < length (requests s)"
  shows "refreshed_once k (on_json rid r s)"
proof (cases "pc (requests s ! rid)")
  case (AwaitRefreshJson res)
  let ?f = "finally_refresh s"
  have f: "refreshed_once k ?f" "requests ?f = requests s"
    using assms(1) by (simp_all add: refreshed_once_def finally_refresh_def)
  show ?thesis
  proof (cases r)
    case Rejected
    have "refreshed_once k (set_request rid ((requests ?f ! rid)\<lparr>pc := Threw\<rparr>) ?f)"
      using f assms(2) by (intro set_pc_once) simp_all
    with AwaitRefreshJson Rejected f(2) show ?thesis by (simp add: on_json_def Let_def)
  next
    case (Fulfilled ab)
    obtain a b where ab: "ab = (a, b)" by (cases ab)
    let ?g = "finally_refresh (forEach_refreshQueue a (setTokens a b s))"
    have "fold (\<lambda>fn s'. s') xs t = t" for xs :: "nat list" and t :: session
      by (induction xs) simp_all
    then have fe: "forEach_refreshQueue a t = t" for t
      by (simp add: forEach_refreshQueue_def)
    have g: "refreshed_once k ?g" "requests ?g = requests s"
      using assms(1) by (simp_all add: fe refreshed_once_def finally_refresh_def setTokens_def)
    have "refreshed_once k (retry rid res ?g)"
      using g assms(2) by (intro retry_once) simp_all
    with AwaitRefreshJson Fulfilled ab show ?thesis by (simp add: on_json_def Let_def)
  qed
qed (use assms in \<open>simp_all add: on_json_def Let_def\<close>)

lemma step_once: "refreshed_once k s \<Longrightarrow> refreshed_once k (step e s)"
  by (cases e) (simp_all add: enter_once on_fetch_once on_refresh_once on_json_once)

lemma run_once: "refreshed_once k s \<Longrightarrow> refreshed_once k (run evs s)"
proof (induction evs arbitrary: s)
  case Nil
  then show ?case by (simp add: run_def)
next
  case (Cons e evs)
  have "run (e # evs) s = run evs (step e s)" by (simp add: run_def)
  with Cons.IH [OF step_once [OF Cons.prems]] show ?case by simp
qed

lemma init_once: "refreshed_once k (init_session a r)"
  by (simp add: refreshed_once_def init_session_def)

text \<open>
  Claim C2. Whatever calls are made and however their promises settle, a call of
  \<open>apiFetch\<close> issues at most one refresh request. A call that awaits its replay and
  receives the response, 401 included, returns that response at once: no request is
  issued and \<open>_refreshing\<close> is not touched.
\<close>

theorem replay_401_no_second_refresh:
  "refresh_calls rid (calls (run evs (init_session a r))) \<le> 1
   \<and> (rid < length (requests s) \<and> pc (requests s ! rid) = AwaitRetry \<longrightarrow>
        pc (requests (step (FetchSettled rid (Fulfilled res)) s) ! rid) = Returned res
        \<and> apiFetch_result (step (FetchSettled rid (Fulfilled res)) s) rid = Some (Fulfilled res)
        \<and> calls (step (FetchSettled rid (Fulfilled res)) s) = calls s
        \<and> refreshing (step (FetchSettled rid (Fulfilled res)) s) = refreshing s)"
proof -
  have "refreshed_once rid (run evs (init_session a r))"
    by (rule run_once [OF init_once])
  then have one: "refresh_calls rid (calls (run evs (init_session a r))) \<le> 1"
    by (simp add: refreshed_once_def)
  have replay: "pc (requests (step (FetchSettled rid (Fulfilled res)) s) ! rid) = Returned res
        \<and> apiFetch_result (step (FetchSettled rid (Fulfilled res)) s) rid = Some (Fulfilled res)
        \<and> calls (step (FetchSettled rid (Fulfilled res)) s) = calls s
        \<and> refreshing (step (FetchSettled rid (Fulfilled res)) s) = refreshing s"
    if "rid < length (requests s)" "pc (requests s ! rid) = AwaitRetry"
    using that by (simp add: on_fetch_def Let_def set_request_def apiFetch_result_def)
  show ?thesis using one replay by blast
qed

text \<open>The theorem at one call whose first fetch and replay both answer 401, with a
  successful refresh in between.\<close>

theorem replay_401_no_second_refresh_witness:
  "pc (requests (run one_fault_refreshed expired) ! 0) = AwaitRetry
   \<and> apiFetch_result (run (one_fault_refreshed @ [FetchSettled 0 (Fulfilled r401)]) expired) 0
       = Some (Fulfilled r401)
   \<and> calls (run (one_fault_refreshed @ [FetchSettled 0 (Fulfilled r401)]) expired)
       = [Fetch 0 (Some ''old''), Refresh 0 (Some ''r1''), Fetch 0 (Some ''new'')]
   \<and> refresh_calls 0 (calls (run (one_fault_refreshed @ [FetchSettled 0 (Fulfilled r401)]) expired)) = 1"
proof -
  have st: "0 < length (requests (run one_fault_refreshed expired))
      \<and> pc (requests (run one_fault_refreshed expired) ! 0) = AwaitRetry
      \<and> calls (run one_fault_refreshed expired)
          = [Fetch 0 (Some ''old''), Refresh 0 (Some ''r1''), Fetch 0 (Some ''new'')]"
    by (simp add: machine_defs one_fault_refreshed_def expired_def r401_def)
  have app: "run (one_fault_refreshed @ [FetchSettled 0 (Fulfilled r401)]) expired
      = step (FetchSettled 0 (Fulfilled r401)) (run one_fault_refreshed expired)"
    by (simp add: run_def)
  show ?thesis
    using replay_401_no_second_refresh [of 0 "one_fault_refreshed @ [FetchSettled 0 (Fulfilled r401)]"
        "Some ''old''" "Some ''r1''" "run one_fault_refreshed expired" r401] st
    unfolding app by (simp add: refresh_calls_def)
qed

subsection \<open>Single flight\<close>

lemma fold_ignore: "fold (\<lambda>fn s'. s') xs t = t"
  by (induction xs) simp_all

lemma forEach_refreshQueue_id [simp]: "forEach_refreshQueue a t = t"
  by (simp add: forEach_refreshQueue_def fold_ignore)

lemma count_update:
  "i < length xs \<Longrightarrow>
     length (filter P (xs[i := y])) + (if P (xs ! i) then 1 else 0)
       = length (filter P xs) + (if P y then 1 else 0)"
proof (induction xs arbitrary: i)
  case Nil
  then show ?case by simp
next
  case (Cons x xs)
  then show ?case by (cases i) auto
qed

lemma count_update_same:
  assumes "i < length xs" "P y = P (xs ! i)"
  shows "length (filter P (xs[i := y])) = length (filter P xs)"
  using count_update [OF assms(1), of P y] assms(2) by (simp split: if_splits)

lemma count_update_enter:
  assumes "i < length xs" "\<not> P (xs ! i)" "P y"
  shows "length (filter P (xs[i := y])) = Suc (length (filter P xs))"
  using count_update [OF assms(1), of P y] assms(2,3) by simp

lemma count_update_leave:
  assumes "i < length xs" "P (xs ! i)" "\<not> P y"
  shows "Suc (length (filter P (xs[i := y]))) = length (filter P xs)"
  using count_update [OF assms(1), of P y] assms(2,3) by simp

lemma enter_flight: "single_flight s \<Longrightarrow> single_flight (apiFetch_enter s)"
  by (simp add: single_flight_def apiFetch_enter_def Let_def in_refresh_def)

lemma on_fetch_flight:
  assumes "single_flight s" "rid < length (requests s)"
  shows "single_flight (on_fetch rid r s)"
proof (cases "pc (requests s ! rid)")
  case AwaitFetch
  then have out: "\<not> in_refresh (requests s ! rid)" by (simp add: in_refresh_def)
  show ?thesis
  proof (cases r)
    case Rejected
    have "length (filter in_refresh ((requests s)[rid := (requests s ! rid)\<lparr>pc := Threw\<rparr>]))
        = length (filter in_refresh (requests s))"
      using assms(2) out by (intro count_update_same) (simp_all add: in_refresh_def)
    with assms(1) AwaitFetch Rejected show ?thesis
      by (simp add: single_flight_def on_fetch_def Let_def set_request_def)
  next
    case (Fulfilled res)
    have ret: "length (filter in_refresh ((requests s)[rid := (requests s ! rid)\<lparr>pc := Returned res\<rparr>]))
        = length (filter in_refresh (requests s))"
      using assms(2) out by (intro count_update_same) (simp_all add: in_refresh_def)
    have rty: "length (filter in_refresh ((requests s)[rid := \<lparr>authorization = t, pc = AwaitRetry\<rparr>]))
        = length (filter in_refresh (requests s))" for t
      using assms(2) out by (intro count_update_same) (simp_all add: in_refresh_def)
    have lead: "length (filter in_refresh ((requests s)[rid := (requests s ! rid)\<lparr>pc := AwaitRefresh res\<rparr>]))
        = Suc (length (filter in_refresh (requests s)))"
      using assms(2) out by (intro count_update_enter) (simp_all add: in_refresh_def)
    show ?thesis
      using assms(1) AwaitFetch Fulfilled ret rty lead
      by (auto simp: single_flight_def on_fetch_def Let_def set_request_def retry_def)
  qed
next
  case AwaitRetry
  then have out: "\<not> in_refresh (requests s ! rid)" by (simp add: in_refresh_def)
  have "length (filter in_refresh ((requests s)[rid := (requests s ! rid)\<lparr>pc := p\<rparr>]))
        = length (filter in_refresh (requests s))" if "p = Threw \<or> (\<exists>res. p = Returned res)" for p
    using assms(2) out that by (intro count_update_same) (auto simp: in_refresh_def)
  with assms(1) AwaitRetry show ?thesis
    by (cases r) (simp_all add: single_flight_def on_fetch_def Let_def set_request_def)
qed (use assms in \<open>simp_all add: on_fetch_def Let_def\<close>)

lemma leave_flight:
  assumes "single_flight s" "rid < length (requests s)" "in_refresh (requests s ! rid)"
  shows "refreshing s" and "length (filter in_refresh (requests s)) = 1"
    and "\<not> in_refresh y \<Longrightarrow> length (filter in_refresh ((requests s)[rid := y])) = 0"
proof -
  have "requests s ! rid \<in> set (filter in_refresh (requests s))"
    using assms(2,3) by simp
  then have pos: "0 < length (filter in_refresh (requests s))"
    by (metis length_pos_if_in_set)
  with assms(1) show r: "refreshing s" by (auto simp: single_flight_def split: if_splits)
  with assms(1) show one: "length (filter in_refresh (requests s)) = 1"
    by (simp add: single_flight_def)
  show "length (filter in_refresh ((requests s)[rid := y])) = 0" if "\<not> in_refresh y"
    using count_update_leave [OF assms(2,3) that] one by simp
qed

lemma on_refresh_flight:
  assumes "single_flight s" "rid < length (requests s)"
  shows "single_flight (on_refresh rid r s)"
proof (cases "pc (requests s ! rid)")
  case (AwaitRefresh res)
  then have inr: "in_refresh (requests s ! rid)" by (simp add: in_refresh_def)
  note lv = leave_flight [OF assms inr]
  have q: "refreshQueue s = []" using assms(1) by (simp add: single_flight_def)
  have stay: "length (filter in_refresh ((requests s)[rid := (requests s ! rid)\<lparr>pc := AwaitRefreshJson res\<rparr>]))
        = length (filter in_refresh (requests s))"
    using assms(2) inr by (intro count_update_same) (simp_all add: in_refresh_def)
  have gone: "length (filter in_refresh ((requests s)[rid := (requests s ! rid)\<lparr>pc := p\<rparr>])) = 0"
    if "p = Threw \<or> p = Returned res" for p
    using that by (intro lv(3)) (auto simp: in_refresh_def)
  have gone': "length (filter in_refresh ((requests s)[rid := \<lparr>authorization = t, pc = AwaitRetry\<rparr>])) = 0" for t
    by (intro lv(3)) (simp add: in_refresh_def)
  show ?thesis
    using AwaitRefresh lv(1,2) q stay gone gone'
    by (cases r)
      (auto simp: single_flight_def on_refresh_def Let_def set_request_def retry_def
        finally_refresh_def clearTokens_def)
qed (use assms in \<open>simp_all add: on_refresh_def Let_def\<close>)

lemma on_json_flight:
  assumes "single_flight s" "rid < length (requests s)"
  shows "single_flight (on_json rid r s)"
proof (cases "pc (requests s ! rid)")
  case (AwaitRefreshJson res)
  then have inr: "in_refresh (requests s ! rid)" by (simp add: in_refresh_def)
  note lv = leave_flight [OF assms inr]
  have gone: "length (filter in_refresh ((requests s)[rid := (requests s ! rid)\<lparr>pc := p\<rparr>])) = 0"
    if "p = Threw \<or> p = Returned res" for p
    using that by (intro lv(3)) (auto simp: in_refresh_def)
  have gone': "length (filter in_refresh ((requests s)[rid := \<lparr>authorization = t, pc = AwaitRetry\<rparr>])) = 0" for t
    by (intro lv(3)) (simp add: in_refresh_def)
  show ?thesis
    using AwaitRefreshJson lv(1,2) gone gone'
    by (cases r)
      (auto simp: single_flight_def on_json_def Let_def set_request_def retry_def
        finally_refresh_def setTokens_def split: if_splits)
qed (use assms in \<open>simp_all add: on_json_def Let_def\<close>)

lemma step_flight: "single_flight s \<Longrightarrow> single_flight (step e s)"
  by (cases e) (simp_all add: enter_flight on_fetch_flight on_refresh_flight on_json_flight)

lemma run_flight: "single_flight s \<Longrightarrow> single_flight (run evs s)"
proof (induction evs arbitrary: s)
  case Nil
  then show ?case by (simp add: run_def)
next
  case (Cons e evs)
  have "run (e # evs) s = run evs (step e s)" by (simp add: run_def)
  with Cons.IH [OF step_flight [OF Cons.prems]] show ?case by simp
qed

lemma refreshQueue_empty: "refreshQueue (run evs (init_session a r)) = []"
proof -
  have "single_flight (init_session a r)" by (simp add: single_flight_def init_session_def)
  then have "single_flight (run evs (init_session a r))" by (rule run_flight)
  then show ?thesis by (simp add: single_flight_def)
qed

lemma at_most_one_refresh_in_flight:
  "length (filter in_refresh (requests (run evs (init_session a r)))) \<le> 1"
proof -
  have "single_flight (init_session a r)" by (simp add: single_flight_def init_session_def)
  then have "single_flight (run evs (init_session a r))" by (rule run_flight)
  then show ?thesis by (simp add: single_flight_def)
qed

section \<open>The single-file path and the pipeline\<close>





end
